theory Spec2Isabelle
  imports Main "HOL-Library.AList"
begin

section \<open>GameDB: a database of entities indexed by fields and spatial bounds\<close>

text \<open>
  A shallow embedding of \<^verbatim>\<open>src/game-space.js\<close> (class \<^verbatim>\<open>GameDB\<close>).

  Conventions of the embedding:
  \<^item> JavaScript values that occur as ids and attribute values are \<open>jsval\<close>:
    \<^verbatim>\<open>undefined\<close> (the value of a missing attribute), \<^verbatim>\<open>null\<close>, booleans, numbers,
    big integers, strings and objects. The code uses such a value as a property key and
    as a member of a \<^verbatim>\<open>Set\<close> only, so a number is given by the string that JavaScript
    converts it to, and an object by its identity and the string of its conversion.
    Symbols, which are property keys of their own, are left out, and so are objects whose
    conversion throws or yields a symbol.
  \<^item> A plain object used as a dictionary (\<^verbatim>\<open>byId\<close>, \<^verbatim>\<open>fieldIndexes\<close>, each sub-index,
    the query) is an association list keyed by property keys, which are strings: every
    value used as a key is first converted by \<open>prop_key\<close>, as JavaScript does. An
    assignment replaces the entry of the key or adds one at the end (\<open>AList.update\<close>),
    \<^verbatim>\<open>delete\<close> removes it (\<open>AList.delete\<close>). The entries are in the order of the
    assignments; JavaScript enumerates the keys that are array indexes first, in
    ascending order, so \<open>all_db\<close> has the order of \<^verbatim>\<open>all()\<close> when no id is an array
    index, and the entities of \<^verbatim>\<open>all()\<close> in every case.
  \<^item> Only own properties are modelled. A lookup of a key that names a member inherited
    from \<^verbatim>\<open>Object.prototype\<close> (\<open>object_prototype_names\<close>) finds that member in
    JavaScript and nothing here; the theorems about the outcome of a lookup of a caller's
    key assume that the key is none of these (\<open>plain_key\<close>).
  \<^item> The identity store \<^verbatim>\<open>byId\<close> is an object from the constructor on and an
    \<^verbatim>\<open>Array\<close> after \<^verbatim>\<open>nuke\<close> (\<open>byId_is_array\<close>). The array differs in its property
    \<^verbatim>\<open>length\<close>: the assignment of an entity to it throws a \<open>RangeError\<close>, its
    \<^verbatim>\<open>delete\<close> throws a \<open>TypeError\<close> (the class body is strict code), and its read
    yields a number, no entity. A read in the identity store that yields no entity
    (\<^verbatim>\<open>undefined\<close>, this number, an inherited member) is \<open>None\<close>.
  \<^item> An assignment under the key \<^verbatim>\<open>__proto__\<close> sets the prototype of the object and no
    property: engines configured with a field of this name are outside the model.
  \<^item> A \<^verbatim>\<open>Set\<close> is a list in insertion order; membership is equality of \<open>jsval\<close>
    (a number and a string are never the same member of a \<^verbatim>\<open>Set\<close>; \<^verbatim>\<open>NaN\<close> is a
    member like any other). The operator \<^verbatim>\<open>===\<close> is \<open>strict_eq\<close>, under which
    \<^verbatim>\<open>NaN\<close> differs from itself.
  \<^item> The coordinates of a bounding box are integers.
  \<^item> An entity is a value: its properties and the result of \<^verbatim>\<open>getSpatialHandle()\<close> at
    the time of the call. The sets that the pool references during a search are not
    written during that search, so the pool holds them by value.
  \<^item> A method that throws returns the thrown error together with the state it leaves
    behind, since the object has been mutated up to the throw.
\<close>

subsection \<open>Values and property keys\<close>

text \<open>
  \<open>JNum s\<close> is the number whose conversion to a string is \<open>s\<close>: \<open>JNum ''5''\<close> is 5,
  \<open>JNum ''0.5''\<close> is 0.5, \<open>JNum ''1e+21''\<close> is 1e21; the two zeros are \<open>JNum ''0''\<close>
  (they are the same key and the same member of a \<^verbatim>\<open>Set\<close>), and \<open>JNum ''NaN''\<close> is
  \<^verbatim>\<open>NaN\<close>. Distinct numbers have distinct strings; a string that no number converts to
  stands for no number, and what is proved for every \<open>jsval\<close> is proved for more values
  than JavaScript has. \<open>JBig n\<close> is the big integer \<open>n\<close>.
  \<open>JObj r s\<close> is the object of identity \<open>r\<close>, whose conversion to a property key is
  \<open>s\<close>.
\<close>

datatype jsval =
  JUndefined | JNull | JBool bool | JNum string | JBig int | JStr string | JObj nat string

definition digit_char :: "nat \<Rightarrow> char" where
  "digit_char d = ''0123456789'' ! d"

function dec_nat :: "nat \<Rightarrow> string" where
  "dec_nat n = (if n < 10 then [digit_char n] else dec_nat (n div 10) @ [digit_char (n mod 10)])"
  by pat_completeness auto
termination
  by (relation "measure (\<lambda>n. n)") auto

declare dec_nat.simps [simp del]

definition dec_int :: "int \<Rightarrow> string" where
  "dec_int n = (if n < 0 then CHR ''-'' # dec_nat (nat (- n)) else dec_nat (nat n))"

text \<open>The string a value turns into when it is used as a property key.\<close>

fun prop_key :: "jsval \<Rightarrow> string" where
  "prop_key JUndefined = ''undefined''"
| "prop_key JNull = ''null''"
| "prop_key (JBool b) = (if b then ''true'' else ''false'')"
| "prop_key (JNum s) = s"
| "prop_key (JBig n) = dec_int n"
| "prop_key (JStr s) = s"
| "prop_key (JObj r s) = s"

text \<open>The operator \<^verbatim>\<open>===\<close>.\<close>

definition strict_eq :: "jsval \<Rightarrow> jsval \<Rightarrow> bool" where
  "strict_eq a b \<longleftrightarrow> a = b \<and> a \<noteq> JNum ''NaN''"

definition object_prototype_names :: "string list" where
  "object_prototype_names =
     [''constructor'', ''hasOwnProperty'', ''isPrototypeOf'', ''propertyIsEnumerable'',
      ''toLocaleString'', ''toString'', ''valueOf'', ''__proto__'',
      ''__defineGetter__'', ''__defineSetter__'', ''__lookupGetter__'', ''__lookupSetter__'']"

text \<open>
  A key is plain when no member of \<^verbatim>\<open>Object.prototype\<close> has its name: the lookup of a plain
  key in a plain object finds an own property or \<^verbatim>\<open>undefined\<close>.
\<close>

definition plain_key :: "string \<Rightarrow> bool" where
  "plain_key k \<longleftrightarrow> k \<notin> set object_prototype_names"

subsection \<open>Sets of ids\<close>

type_synonym idset = "jsval list"

definition set_has :: "idset \<Rightarrow> jsval \<Rightarrow> bool" where
  "set_has s x = (x \<in> set s)"

definition set_add :: "jsval \<Rightarrow> idset \<Rightarrow> idset" where
  "set_add x s = (if set_has s x then s else s @ [x])"

definition set_delete :: "jsval \<Rightarrow> idset \<Rightarrow> idset" where
  "set_delete x s = removeAll x s"

text \<open>\<^verbatim>\<open>pool.emptySet\<close>: allocated once by the constructor and never added to.\<close>

definition emptySet :: idset where
  "emptySet = []"

subsection \<open>Entities\<close>

record bbox =
  minX :: int
  minY :: int
  maxX :: int
  maxY :: int

record entity =
  props :: "(string \<times> jsval) list"
  handle :: bbox

text \<open>\<^verbatim>\<open>entity[field]\<close>: \<^verbatim>\<open>undefined\<close> when the entity has no such property.\<close>

definition entity_get :: "entity \<Rightarrow> string \<Rightarrow> jsval" where
  "entity_get e f = (case map_of (props e) f of None \<Rightarrow> JUndefined | Some v \<Rightarrow> v)"

definition entity_id :: "entity \<Rightarrow> jsval" where
  "entity_id e = entity_get e ''id''"

subsection \<open>The spatial index\<close>

text \<open>
  Modelled from the spec: the external spatial range index (the \<^verbatim>\<open>rbush\<close> package), whose
  code is not part of the repository. It is a collection of entries, each an id with a
  bounding box, kept here in the order of insertion; the specification promises no order
  of the search results.
\<close>

type_synonym sp_entry = "jsval \<times> bbox"

text \<open>
  Modelled from the spec: two boxes intersect when they overlap or touch, the test being
  inclusive on all edges.
\<close>

definition sp_intersects :: "bbox \<Rightarrow> bbox \<Rightarrow> bool" where
  "sp_intersects a b \<longleftrightarrow>
     minX b \<le> maxX a \<and> minY b \<le> maxY a \<and> maxX b \<ge> minX a \<and> maxY b \<ge> minY a"

text \<open>Modelled from the spec: \<^verbatim>\<open>insert\<close> of the spatial index adds the entry.\<close>

definition sp_insert :: "sp_entry \<Rightarrow> sp_entry list \<Rightarrow> sp_entry list" where
  "sp_insert entry t = t @ [entry]"

text \<open>
  Modelled from the spec: \<^verbatim>\<open>remove\<close> of the spatial index removes one entry, looked up by
  equality of ids, for which the code passes \<^verbatim>\<open>(a, b) => a.id === b.id\<close>, and nothing
  when there is no such entry.
\<close>

fun sp_remove :: "jsval \<Rightarrow> sp_entry list \<Rightarrow> sp_entry list" where
  "sp_remove i [] = []"
| "sp_remove i (entry # t) = (if strict_eq (fst entry) i then t else entry # sp_remove i t)"

text \<open>
  Modelled from the spec: \<^verbatim>\<open>search\<close> of the spatial index yields the entries whose box
  intersects the bounds.
\<close>

definition sp_search :: "bbox \<Rightarrow> sp_entry list \<Rightarrow> sp_entry list" where
  "sp_search b t = filter (\<lambda>entry. sp_intersects b (snd entry)) t"

text \<open>Modelled from the spec: \<^verbatim>\<open>clear\<close> of the spatial index removes every entry.\<close>

definition sp_clear :: "sp_entry list \<Rightarrow> sp_entry list" where
  "sp_clear t = []"

subsection \<open>The engine state\<close>

text \<open>
  The scratch pool (\<^verbatim>\<open>this.pool\<close>); its member \<^verbatim>\<open>fields\<close> is \<open>fields_p\<close> here.
\<close>

record pool =
  spatial :: idset
  fields_p :: "idset list"
  ids :: idset
  resultReference :: "idset option"

type_synonym field_index = "(string \<times> idset) list"

text \<open>
  The engine. \<open>byId\<close> holds the own properties of \<^verbatim>\<open>this.byId\<close> that were assigned,
  and \<open>byId_is_array\<close> says whether \<^verbatim>\<open>this.byId\<close> is an \<^verbatim>\<open>Array\<close>.
\<close>

record gamedb =
  fieldsToIndex :: "string list"
  fieldIndexes :: "(string \<times> field_index) list"
  byId :: "(string \<times> entity) list"
  byId_is_array :: bool
  spatialIndex :: "sp_entry list"
  pool :: pool

text \<open>
  The errors. The source has no \<^verbatim>\<open>throw\<close>: what it can raise are the JavaScript
  runtime's \<open>TypeError\<close> (a property read or a method call on \<^verbatim>\<open>undefined\<close>, the
  \<^verbatim>\<open>delete\<close> of the length of an array) and \<open>RangeError\<close> (the assignment of an
  entity to the length of an array). The other four are the error names of the
  specification.
\<close>

datatype error =
  TypeError | RangeError
| DuplicateIdError | NotFoundError | UnknownFieldError | UnknownFieldValueError

text \<open>The constructor's loop and \<^verbatim>\<open>nuke\<close>'s: an empty sub-index for every field.\<close>

definition empty_indexes :: "string list \<Rightarrow> (string \<times> field_index) list" where
  "empty_indexes fs = foldl (\<lambda>m field. AList.update field [] m) [] fs"

definition new_GameDB :: "string list \<Rightarrow> gamedb" where
  "new_GameDB fs =
     \<lparr> fieldsToIndex = fs, fieldIndexes = empty_indexes fs, byId = [],
       byId_is_array = False, spatialIndex = [],
       pool = \<lparr> spatial = [], fields_p = [], ids = [], resultReference = None \<rparr> \<rparr>"

subsection \<open>Private methods\<close>

definition clearBuffer :: "'a list \<Rightarrow> 'a list" where
  "clearBuffer buffer = []"

definition clearPool :: "gamedb \<Rightarrow> gamedb" where
  "clearPool g = g\<lparr> pool := \<lparr> spatial = [], fields_p = [], ids = [], resultReference = None \<rparr> \<rparr>"

text \<open>The key is the property \<^verbatim>\<open>length\<close> of an identity store that is an array.\<close>

definition is_length :: "gamedb \<Rightarrow> string \<Rightarrow> bool" where
  "is_length g k \<longleftrightarrow> byId_is_array g \<and> k = ''length''"

text \<open>
  \<^verbatim>\<open>this.byId[id]\<close>: the stored entity, or \<open>None\<close> when the read yields no entity
  (\<^verbatim>\<open>undefined\<close>, or the length of the array).
\<close>

definition byId_get :: "gamedb \<Rightarrow> jsval \<Rightarrow> entity option" where
  "byId_get g i = (if is_length g (prop_key i) then None else map_of (byId g) (prop_key i))"

definition useResults :: "gamedb \<Rightarrow> idset" where
  "useResults g = (case resultReference (pool g) of Some r \<Rightarrow> r | None \<Rightarrow> ids (pool g))"

definition resolve :: "gamedb \<Rightarrow> entity option list \<Rightarrow> entity option list" where
  "resolve g results = results @ map (byId_get g) (useResults g)"

definition spatialSearch :: "bbox \<Rightarrow> gamedb \<Rightarrow> gamedb" where
  "spatialSearch bounds g =
     g\<lparr> pool := (pool g)\<lparr> spatial :=
          foldl (\<lambda>s entry. set_add (fst entry) s) (spatial (pool g))
                (sp_search bounds (spatialIndex g)) \<rparr> \<rparr>"

text \<open>
  The loop of \<^verbatim>\<open>_fieldSearch\<close> over \<^verbatim>\<open>Object.keys(query)\<close>; the query is the list of its
  (field, value) pairs in that order. Reading \<^verbatim>\<open>this.fieldIndexes[field][value]\<close> throws
  when the field has no sub-index; the results pushed before stay in the pool.
\<close>

fun fieldSearch :: "(string \<times> jsval) list \<Rightarrow> gamedb \<Rightarrow> error option \<times> gamedb" where
  "fieldSearch [] g = (None, g)"
| "fieldSearch ((field, v) # rest) g =
     (case map_of (fieldIndexes g) field of
        None \<Rightarrow> (Some TypeError, g)
      | Some fieldIndex \<Rightarrow>
          (let result = (case map_of fieldIndex (prop_key v) of
                           None \<Rightarrow> emptySet | Some s \<Rightarrow> s)
           in fieldSearch rest (g\<lparr> pool := (pool g)\<lparr> fields_p := fields_p (pool g) @ [result] \<rparr> \<rparr>)))"

text \<open>
  \<^verbatim>\<open>this.byId[entity.id] = entity\<close>. The assignment to the length of an array converts
  the entity to a number, which is \<^verbatim>\<open>NaN\<close> for an object without a conversion of its
  own, and throws a \<open>RangeError\<close>.
\<close>

definition insertIntoIdIndex :: "entity \<Rightarrow> gamedb \<Rightarrow> error option \<times> gamedb" where
  "insertIntoIdIndex e g =
     (if is_length g (prop_key (entity_id e)) then (Some RangeError, g)
      else (None, g\<lparr> byId := AList.update (prop_key (entity_id e)) e (byId g) \<rparr>))"

text \<open>
  The \<^verbatim>\<open>forEach\<close> of \<^verbatim>\<open>_insertIntoFieldIndex\<close>; \<^verbatim>\<open>fieldIndex[...]\<close> throws when the field
  has no sub-index.
\<close>

fun insertIntoFieldIndex_loop ::
  "string list \<Rightarrow> entity \<Rightarrow> (string \<times> field_index) list
     \<Rightarrow> error option \<times> (string \<times> field_index) list" where
  "insertIntoFieldIndex_loop [] e fi = (None, fi)"
| "insertIntoFieldIndex_loop (field # rest) e fi =
     (case map_of fi field of
        None \<Rightarrow> (Some TypeError, fi)
      | Some fieldIndex \<Rightarrow>
          (let k = prop_key (entity_get e field);
               fieldIndex' = (case map_of fieldIndex k of
                                None \<Rightarrow> AList.update k [entity_id e] fieldIndex
                              | Some s \<Rightarrow> AList.update k (set_add (entity_id e) s) fieldIndex)
           in insertIntoFieldIndex_loop rest e (AList.update field fieldIndex' fi)))"

definition insertIntoFieldIndex :: "entity \<Rightarrow> gamedb \<Rightarrow> error option \<times> gamedb" where
  "insertIntoFieldIndex e g =
     (let (err, fi) = insertIntoFieldIndex_loop (fieldsToIndex g) e (fieldIndexes g)
      in (err, g\<lparr> fieldIndexes := fi \<rparr>))"

definition insertIntoSpatialIndex :: "entity \<Rightarrow> gamedb \<Rightarrow> gamedb" where
  "insertIntoSpatialIndex e g =
     g\<lparr> spatialIndex := sp_insert (entity_id e, handle e) (spatialIndex g) \<rparr>"

definition removeFromSpatialIndex :: "entity \<Rightarrow> gamedb \<Rightarrow> gamedb" where
  "removeFromSpatialIndex e g = g\<lparr> spatialIndex := sp_remove (entity_id e) (spatialIndex g) \<rparr>"

definition clearSpatialIndex :: "gamedb \<Rightarrow> gamedb" where
  "clearSpatialIndex g = g\<lparr> spatialIndex := sp_clear (spatialIndex g) \<rparr>"

subsection \<open>The intersection loops of search\<close>

text \<open>
  The loop that looks for the smallest set: \<open>i\<close> is the index of the first field still to
  visit, \<open>smallestSet\<close> and \<open>smallestIndex\<close> are the loop's variables.
\<close>

fun find_smallest :: "idset list \<Rightarrow> int \<Rightarrow> idset \<Rightarrow> int \<Rightarrow> idset \<times> int" where
  "find_smallest [] i smallestSet smallestIndex = (smallestSet, smallestIndex)"
| "find_smallest (field # rest) i smallestSet smallestIndex =
     (if length field < length smallestSet
      then find_smallest rest (i + 1) field i
      else find_smallest rest (i + 1) smallestSet smallestIndex)"

text \<open>
  The inner loop: does \<open>x\<close> belong to every set but the one at \<open>smallestIndex\<close>? The
  sets still to compare are \<open>sets\<close>, the first of them at index \<open>i\<close>; the loop stops at
  the first set without \<open>x\<close>.
\<close>

fun intersects :: "idset list \<Rightarrow> int \<Rightarrow> int \<Rightarrow> jsval \<Rightarrow> bool" where
  "intersects [] i smallestIndex x = True"
| "intersects (compare # rest) i smallestIndex x =
     (if i = smallestIndex then intersects rest (i + 1) smallestIndex x
      else if \<not> set_has compare x then False
      else intersects rest (i + 1) smallestIndex x)"

text \<open>The outer loop over the smallest set, adding to \<^verbatim>\<open>pool.ids\<close>.\<close>

fun intersect_loop :: "jsval list \<Rightarrow> (jsval \<Rightarrow> bool) \<Rightarrow> idset \<Rightarrow> idset" where
  "intersect_loop [] keep acc = acc"
| "intersect_loop (x # xs) keep acc =
     intersect_loop xs keep (if keep x then set_add x acc else acc)"

text \<open>
  The branch for bounds and query together: the spatial result has index \<open>-1\<close>, the field
  results the indices from \<open>0\<close>.
\<close>

definition intersect_both :: "gamedb \<Rightarrow> gamedb" where
  "intersect_both g =
     (if length (fields_p (pool g)) > 0 \<and> length (spatial (pool g)) > 0
      then (let (smallestSet, smallestIndex) =
                   find_smallest (fields_p (pool g)) 0 (spatial (pool g)) (- 1)
            in g\<lparr> pool := (pool g)\<lparr> ids :=
                 intersect_loop smallestSet
                   (intersects (spatial (pool g) # fields_p (pool g)) (- 1) smallestIndex)
                   (ids (pool g)) \<rparr> \<rparr>)
      else g)"

text \<open>The branch for a query alone.\<close>

definition intersect_fields :: "gamedb \<Rightarrow> gamedb" where
  "intersect_fields g =
     (case fields_p (pool g) of
        [] \<Rightarrow> g
      | [only] \<Rightarrow> g\<lparr> pool := (pool g)\<lparr> resultReference := Some only \<rparr> \<rparr>
      | first # rest \<Rightarrow>
          (let (smallestSet, smallestIndex) = find_smallest rest 1 first 0
           in g\<lparr> pool := (pool g)\<lparr> ids :=
                intersect_loop smallestSet
                  (intersects (fields_p (pool g)) 0 smallestIndex)
                  (ids (pool g)) \<rparr> \<rparr>))"

subsection \<open>Public methods\<close>

text \<open>
  \<^verbatim>\<open>search({ bounds, query }, results)\<close>: the outcome is the error thrown (if any), the
  engine afterwards and the caller's buffer afterwards. \<open>None\<close> for \<open>bounds\<close> or
  \<open>query\<close> is an absent (falsy) member; an object, even an empty one, is truthy.
\<close>

definition search ::
  "gamedb \<Rightarrow> bbox option \<Rightarrow> (string \<times> jsval) list option \<Rightarrow> entity option list
     \<Rightarrow> error option \<times> gamedb \<times> entity option list" where
  "search g bounds query results =
     (let results1 = clearBuffer results;
          g1 = clearPool g;
          g2 = (case bounds of Some b \<Rightarrow> spatialSearch b g1 | None \<Rightarrow> g1);
          (err, g3) = (case query of Some q \<Rightarrow> fieldSearch q g2 | None \<Rightarrow> (None, g2))
      in case err of
           Some e \<Rightarrow> (Some e, g3, results1)
         | None \<Rightarrow>
             (let g4 = (if bounds \<noteq> None \<and> query \<noteq> None then intersect_both g3
                        else if bounds \<noteq> None
                        then g3\<lparr> pool := (pool g3)\<lparr> resultReference := Some (spatial (pool g3)) \<rparr> \<rparr>
                        else if query \<noteq> None then intersect_fields g3
                        else g3)
              in (None, g4, resolve g4 results1)))"

definition insert_db :: "gamedb \<Rightarrow> entity \<Rightarrow> error option \<times> gamedb" where
  "insert_db g e =
     (let (err1, g1) = insertIntoIdIndex e g
      in case err1 of
           Some x \<Rightarrow> (Some x, g1)
         | None \<Rightarrow>
             (let (err2, g2) = insertIntoFieldIndex e g1
              in case err2 of
                   Some x \<Rightarrow> (Some x, g2)
                 | None \<Rightarrow> (None, insertIntoSpatialIndex e g2)))"

text \<open>
  The \<^verbatim>\<open>forEach\<close> of \<^verbatim>\<open>remove\<close>: \<^verbatim>\<open>this.fieldIndexes[field][value].delete(entity.id)\<close>
  throws when the field has no sub-index or the sub-index has no set for the value.
\<close>

fun remove_loop ::
  "string list \<Rightarrow> entity \<Rightarrow> (string \<times> field_index) list
     \<Rightarrow> error option \<times> (string \<times> field_index) list" where
  "remove_loop [] e fi = (None, fi)"
| "remove_loop (field # rest) e fi =
     (case map_of fi field of
        None \<Rightarrow> (Some TypeError, fi)
      | Some fieldIndex \<Rightarrow>
          (let k = prop_key (entity_get e field)
           in case map_of fieldIndex k of
                None \<Rightarrow> (Some TypeError, fi)
              | Some s \<Rightarrow>
                  remove_loop rest e
                    (AList.update field (AList.update k (set_delete (entity_id e) s) fieldIndex) fi)))"

text \<open>
  \<^verbatim>\<open>remove\<close>: the \<^verbatim>\<open>delete\<close> comes first, and throws for the length of an array.
\<close>

definition remove_db :: "gamedb \<Rightarrow> entity \<Rightarrow> error option \<times> gamedb" where
  "remove_db g e =
     (if is_length g (prop_key (entity_id e)) then (Some TypeError, g)
      else
        (let g1 = g\<lparr> byId := AList.delete (prop_key (entity_id e)) (byId g) \<rparr>;
             (err, fi) = remove_loop (fieldsToIndex g1) e (fieldIndexes g1);
             g2 = g1\<lparr> fieldIndexes := fi \<rparr>
         in case err of
              Some x \<Rightarrow> (Some x, g2)
            | None \<Rightarrow> (None, removeFromSpatialIndex e g2)))"

definition move :: "gamedb \<Rightarrow> entity \<Rightarrow> error option \<times> gamedb" where
  "move g e = (None, insertIntoSpatialIndex e (removeFromSpatialIndex e g))"

definition all_db :: "gamedb \<Rightarrow> entity list" where
  "all_db g = map snd (byId g)"

text \<open>\<^verbatim>\<open>nuke\<close>: from here on the identity store is an array (\<^verbatim>\<open>this.byId = []\<close>).\<close>

definition nuke :: "gamedb \<Rightarrow> error option \<times> gamedb" where
  "nuke g =
     (None, (clearSpatialIndex g)\<lparr> byId := [], byId_is_array := True,
                                     fieldIndexes := empty_indexes (fieldsToIndex g) \<rparr>)"

text \<open>The public methods as calls, and the engine running one call.\<close>

datatype call =
  Insert entity
| Remove entity
| Move entity
| Search "bbox option" "(string \<times> jsval) list option" "entity option list"
| All_db
| Nuke

fun exec :: "gamedb \<Rightarrow> call \<Rightarrow> error option \<times> gamedb" where
  "exec g (Insert e) = insert_db g e"
| "exec g (Remove e) = remove_db g e"
| "exec g (Move e) = move g e"
| "exec g (Search bounds query results) =
     (fst (search g bounds query results), fst (snd (search g bounds query results)))"
| "exec g All_db = (None, g)"
| "exec g Nuke = nuke g"

subsection \<open>What a search yields\<close>

text \<open>
  The ids a search resolves (the set \<^verbatim>\<open>_resolve\<close> iterates) and the entities it leaves in
  the caller's buffer.
\<close>

definition search_ids :: "gamedb \<Rightarrow> bbox option \<Rightarrow> (string \<times> jsval) list option \<Rightarrow> idset" where
  "search_ids g bounds query = useResults (fst (snd (search g bounds query [])))"

definition search_results ::
  "gamedb \<Rightarrow> bbox option \<Rightarrow> (string \<times> jsval) list option \<Rightarrow> entity option list" where
  "search_results g bounds query = snd (snd (search g bounds query []))"

text \<open>The set stored for a field under a property key, empty when there is none.\<close>

definition slot :: "(string \<times> field_index) list \<Rightarrow> string \<Rightarrow> string \<Rightarrow> idset" where
  "slot fi f k =
     (case map_of fi f of
        None \<Rightarrow> emptySet
      | Some fieldIndex \<Rightarrow> (case map_of fieldIndex k of None \<Rightarrow> emptySet | Some s \<Rightarrow> s))"

definition index_set :: "gamedb \<Rightarrow> string \<Rightarrow> string \<Rightarrow> idset" where
  "index_set g f k = slot (fieldIndexes g) f k"

definition field_lookup :: "gamedb \<Rightarrow> string \<times> jsval \<Rightarrow> idset" where
  "field_lookup g c = index_set g (fst c) (prop_key (snd c))"

definition spatial_hits :: "gamedb \<Rightarrow> bbox \<Rightarrow> idset" where
  "spatial_hits g b = foldl (\<lambda>s entry. set_add (fst entry) s) [] (sp_search b (spatialIndex g))"

definition known_fields :: "gamedb \<Rightarrow> (string \<times> jsval) list \<Rightarrow> bool" where
  "known_fields g q = list_all (\<lambda>c. map_of (fieldIndexes g) (fst c) \<noteq> None) q"

subsection \<open>Invariants of the engine state\<close>

text \<open>
  The sub-indexes are those of the configured fields: the constructor and \<^verbatim>\<open>nuke\<close>
  establish it and no method adds or removes a sub-index.
\<close>

definition configured :: "gamedb \<Rightarrow> bool" where
  "configured g \<longleftrightarrow> set (map fst (fieldIndexes g)) = set (fieldsToIndex g)"

text \<open>
  Every id held by the spatial index or by a set of the field index resolves, in the
  identity store, to an entity that carries this id.
\<close>

definition indexed_ids :: "gamedb \<Rightarrow> jsval list" where
  "indexed_ids g =
     map fst (spatialIndex g) @
     concat (map (\<lambda>sub. concat (map snd (snd sub))) (fieldIndexes g))"

definition resolves :: "gamedb \<Rightarrow> jsval \<Rightarrow> bool" where
  "resolves g i = (case byId_get g i of None \<Rightarrow> False | Some e \<Rightarrow> entity_id e = i)"

definition ids_resolve :: "gamedb \<Rightarrow> bool" where
  "ids_resolve g = list_all (resolves g) (indexed_ids g)"

text \<open>
  The invariant of the identity store and the field index: the store has one entry per
  key and files each entity under the key of its id; an id is in the set of a field under
  a key exactly when the stored entity with this id has, for this field, a value with
  this key.
\<close>

definition store_inv :: "gamedb \<Rightarrow> bool" where
  "store_inv g \<longleftrightarrow>
     distinct (map fst (byId g)) \<and>
     list_all (\<lambda>entry. prop_key (entity_id (snd entry)) = fst entry \<and> \<not> is_length g (fst entry))
              (byId g)"

definition filed_under :: "gamedb \<Rightarrow> string \<Rightarrow> string \<Rightarrow> jsval \<Rightarrow> bool" where
  "filed_under g f k i =
     (case byId_get g i of
        None \<Rightarrow> False
      | Some e \<Rightarrow> entity_id e = i \<and> prop_key (entity_get e f) = k)"

definition field_index_inv :: "gamedb \<Rightarrow> bool" where
  "field_index_inv g \<longleftrightarrow>
     store_inv g \<and>
     list_all (\<lambda>f. case map_of (fieldIndexes g) f of
                     None \<Rightarrow> False
                   | Some fieldIndex \<Rightarrow>
                       list_all (\<lambda>entry. list_all (filed_under g f (fst entry)) (snd entry))
                                fieldIndex \<and>
                       list_all (\<lambda>e. set_has (index_set g f (prop_key (entity_get e f))) (entity_id e))
                                (all_db g))
              (fieldsToIndex g)"

text \<open>
  The state as a whole: the association lists that stand for objects have one entry per
  key, the sub-indexes are those of the configured fields, the field index agrees with
  the identity store, and the spatial index has one entry for the id of each stored
  entity and no other entry.
\<close>

definition wf_index :: "(string \<times> field_index) list \<Rightarrow> bool" where
  "wf_index fi \<longleftrightarrow>
     distinct (map fst fi) \<and> list_all (\<lambda>sub. distinct (map fst (snd sub))) fi"

definition spatial_inv :: "gamedb \<Rightarrow> bool" where
  "spatial_inv g \<longleftrightarrow>
     distinct (map fst (spatialIndex g)) \<and>
     set (map fst (spatialIndex g)) = set (map entity_id (all_db g))"

definition db_inv :: "gamedb \<Rightarrow> bool" where
  "db_inv g \<longleftrightarrow>
     configured g \<and> wf_index (fieldIndexes g) \<and> field_index_inv g \<and> spatial_inv g"

text \<open>
  The entity is the stored one as far as the indexes can tell: the entity stored under
  its id has this id and, for every configured field, a value with the same key.
\<close>

definition stored_as :: "gamedb \<Rightarrow> entity \<Rightarrow> bool" where
  "stored_as g e =
     (case byId_get g (entity_id e) of
        None \<Rightarrow> False
      | Some e0 \<Rightarrow>
          entity_id e0 = entity_id e \<and>
          list_all (\<lambda>f. prop_key (entity_get e0 f) = prop_key (entity_get e f))
                   (fieldsToIndex g))"

text \<open>An entity whose id and whose values for the configured fields have plain keys.\<close>

definition plain_entity :: "gamedb \<Rightarrow> entity \<Rightarrow> bool" where
  "plain_entity g e \<longleftrightarrow>
     plain_key (prop_key (entity_id e)) \<and>
     list_all (\<lambda>f. plain_key (prop_key (entity_get e f))) (fieldsToIndex g)"

text \<open>
  The caller's side of the contract: an entity is inserted under an id that is not
  present and with plain keys, removed as it is stored, and moved when its id is present;
  no id is \<^verbatim>\<open>NaN\<close>, which the spatial index cannot find again.
\<close>

fun contract :: "gamedb \<Rightarrow> call \<Rightarrow> bool" where
  "contract g (Insert e) =
     (byId_get g (entity_id e) = None \<and> plain_entity g e \<and>
      strict_eq (entity_id e) (entity_id e))"
| "contract g (Remove e) = (stored_as g e \<and> strict_eq (entity_id e) (entity_id e))"
| "contract g (Move e) =
     (entity_id e \<in> set (map entity_id (all_db g)) \<and> strict_eq (entity_id e) (entity_id e))"
| "contract g c = True"

text \<open>
  The states reached from a new engine by calls that keep the contract. What is proved of
  them holds of the code as far as the spatial index does what the specification says of
  it.
\<close>

inductive proper :: "gamedb \<Rightarrow> bool" where
  start: "proper (new_GameDB fs)"
| step: "proper g \<Longrightarrow> contract g c \<Longrightarrow> proper (snd (exec g c))"

text \<open>The calls other than \<^verbatim>\<open>remove\<close>, an insert being of an entity with plain keys.\<close>

fun covered_call :: "gamedb \<Rightarrow> call \<Rightarrow> bool" where
  "covered_call g (Remove e) = False"
| "covered_call g (Insert e) = plain_entity g e"
| "covered_call g c = True"

text \<open>The field has a sub-index, and the sub-index a set under the key of the entity's value.\<close>

definition has_slot :: "(string \<times> field_index) list \<Rightarrow> entity \<Rightarrow> string \<Rightarrow> bool" where
  "has_slot fi e f =
     (case map_of fi f of
        None \<Rightarrow> False
      | Some fieldIndex \<Rightarrow> map_of fieldIndex (prop_key (entity_get e f)) \<noteq> None)"

subsection \<open>The entities of the repository's tests\<close>

definition test_entity :: "string \<Rightarrow> int \<Rightarrow> int \<Rightarrow> int \<Rightarrow> jsval \<Rightarrow> jsval \<Rightarrow> entity" where
  "test_entity i x y sz ty col =
     \<lparr> props = [(''id'', JStr i), (''type'', ty), (''color'', col)],
       handle = \<lparr> minX = x, minY = y, maxX = x + sz, maxY = y + sz \<rparr> \<rparr>"

definition dog :: entity where
  "dog = test_entity ''dog'' 0 0 5 (JStr ''animal'') (JStr ''black'')"

definition cat :: entity where
  "cat = test_entity ''cat'' 12 13 2 (JStr ''animal'') (JStr ''white'')"

definition tree :: entity where
  "tree = test_entity ''tree'' 5 5 7 (JStr ''plant'') (JStr ''green'')"

definition flower :: entity where
  "flower = test_entity ''flower'' 7 2 2 (JStr ''plant'') (JStr ''green'')"

text \<open>
  The database of the tests after the four inserts; every test starts with \<^verbatim>\<open>nuke\<close>.
\<close>

definition test_db :: gamedb where
  "test_db =
     snd (insert_db (snd (insert_db (snd (insert_db (snd (insert_db
       (snd (nuke (new_GameDB [''type'', ''color'']))) dog)) cat)) tree)) flower)"

definition upperLeft :: bbox where
  "upperLeft = \<lparr> minX = 0, minY = 0, maxX = 3, maxY = 3 \<rparr>"

text \<open>The dog after \<^verbatim>\<open>dog.x = 4\<close>, as the test of \<^verbatim>\<open>move\<close> has it.\<close>

definition moved_dog :: entity where
  "moved_dog = dog\<lparr> handle := \<lparr> minX = 4, minY = 0, maxX = 9, maxY = 5 \<rparr> \<rparr>"

text \<open>The wider bounds of the tests, which reach the dog and the flower.\<close>

definition wide :: bbox where
  "wide = \<lparr> minX = 0, minY = 0, maxX = 15, maxY = 3 \<rparr>"

text \<open>
  Further entities: one that reuses the id of the dog, one that was never inserted but has
  values that are indexed, and the dog after \<^verbatim>\<open>dog.color = "purple"\<close>.
\<close>

definition impostor :: entity where
  "impostor = test_entity ''dog'' 20 20 1 (JStr ''plant'') (JStr ''green'')"


definition purple_dog :: entity where
  "purple_dog = test_entity ''dog'' 0 0 5 (JStr ''animal'') (JStr ''purple'')"

text \<open>A database indexed by \<^verbatim>\<open>hp\<close>, with one enemy whose \<^verbatim>\<open>hp\<close> is the number 5.\<close>

definition enemy :: entity where
  "enemy = \<lparr> props = [(''id'', JStr ''enemy''), (''hp'', JNum ''5'')],
             handle = \<lparr> minX = 10, minY = 20, maxX = 20, maxY = 30 \<rparr> \<rparr>"

definition hp_db :: gamedb where
  "hp_db = snd (insert_db (new_GameDB [''hp'']) enemy)"

text \<open>A giant whose \<^verbatim>\<open>hp\<close> is the number 1e21, which is the key \<^verbatim>\<open>1e+21\<close>.\<close>

definition giant :: entity where
  "giant = \<lparr> props = [(''id'', JStr ''giant''), (''hp'', JNum ''1e+21'')],
             handle = \<lparr> minX = 0, minY = 0, maxX = 50, maxY = 50 \<rparr> \<rparr>"

definition giant_db :: gamedb where
  "giant_db = snd (insert_db (new_GameDB [''hp'']) giant)"

text \<open>
  Two entities whose ids are the number 5 and the text "5", and the database after the
  insert of the one and of the other.
\<close>

definition five_number :: entity where
  "five_number =
     \<lparr> props = [(''id'', JNum ''5''), (''type'', JStr ''animal''), (''color'', JStr ''black'')],
       handle = \<lparr> minX = 0, minY = 0, maxX = 1, maxY = 1 \<rparr> \<rparr>"

definition five_text :: entity where
  "five_text =
     \<lparr> props = [(''id'', JStr ''5''), (''type'', JStr ''plant''), (''color'', JStr ''white'')],
       handle = \<lparr> minX = 10, minY = 10, maxX = 11, maxY = 11 \<rparr> \<rparr>"

definition fives_db :: gamedb where
  "fives_db =
     snd (insert_db (snd (insert_db (new_GameDB [''type'', ''color'']) five_number)) five_text)"

text \<open>An entity whose id is the text "length".\<close>

definition length_entity :: entity where
  "length_entity = test_entity ''length'' 0 0 1 (JStr ''animal'') (JStr ''black'')"

section \<open>Properties\<close>

subsection \<open>The repository's tests\<close>

text \<open>
  The expectations of \<^verbatim>\<open>test/test.js\<close>, evaluated on the embedding. The tests count
  results and look entities up by id; here the buffers are compared as they are, in the
  order of insertion.
\<close>

lemma test_all: "all_db test_db = [dog, cat, tree, flower]"
  by code_simp

lemma test_remove:
  "fst (remove_db test_db dog) = None \<and> all_db (snd (remove_db test_db dog)) = [cat, tree, flower]"
  by code_simp

lemma test_single_field:
  "search_results test_db None (Some [(''type'', JStr ''animal'')]) = [Some dog, Some cat] \<and>
   search_results test_db None (Some [(''type'', JStr ''plant'')]) = [Some tree, Some flower] \<and>
   search_results test_db None (Some [(''type'', JStr ''fake'')]) = [] \<and>
   search_results (snd (remove_db test_db dog)) None (Some [(''type'', JStr ''animal'')]) = [Some cat]"
  by code_simp

lemma test_multiple_fields:
  "search_results test_db None (Some [(''type'', JStr ''animal''), (''color'', JStr ''black'')]) =
     [Some dog] \<and>
   search_results test_db None (Some [(''type'', JStr ''plant''), (''color'', JStr ''green'')]) =
     [Some tree, Some flower] \<and>
   search_results test_db None (Some [(''type'', JStr ''plant''), (''color'', JStr ''black'')]) = [] \<and>
   search_results test_db None (Some [(''type'', JStr ''animal''), (''color'', JStr ''red'')]) = [] \<and>
   search_results test_db None (Some [(''type'', JStr ''book''), (''color'', JStr ''red'')]) = []"
  by code_simp

lemma test_bounds:
  "search_results test_db (Some upperLeft) None = [Some dog] \<and>
   search_results (snd (move test_db moved_dog)) (Some upperLeft) None = [] \<and>
   search_results (snd (move test_db moved_dog)) (Some wide) None = [Some flower, Some dog] \<and>
   search_results (snd (remove_db (snd (move test_db moved_dog)) moved_dog)) (Some wide) None =
     [Some flower]"
  by code_simp

lemma test_bounds_and_fields:
  "search_results test_db (Some upperLeft) (Some [(''type'', JStr ''animal'')]) = [Some dog] \<and>
   search_results test_db (Some upperLeft)
     (Some [(''type'', JStr ''animal''), (''color'', JStr ''black'')]) = [Some dog] \<and>
   search_results test_db (Some upperLeft)
     (Some [(''type'', JStr ''animal''), (''color'', JStr ''white'')]) = []"
  by code_simp

lemma test_db_inv: "db_inv test_db"
  by code_simp

text \<open>
  Beyond the tests. The identity store of a new engine takes an entity with the id
  \<^verbatim>\<open>length\<close>; after \<^verbatim>\<open>nuke\<close> it is an array, and the insert and the remove of this
  entity throw and change nothing.
\<close>

lemma test_array_length:
  "fst (insert_db (new_GameDB [''type'', ''color'']) length_entity) = None \<and>
   all_db (snd (insert_db (new_GameDB [''type'', ''color'']) length_entity)) = [length_entity] \<and>
   insert_db (snd (nuke (new_GameDB [''type'', ''color'']))) length_entity =
     (Some RangeError, snd (nuke (new_GameDB [''type'', ''color'']))) \<and>
   remove_db (snd (nuke (new_GameDB [''type'', ''color'']))) length_entity =
     (Some TypeError, snd (nuke (new_GameDB [''type'', ''color''])))"
  by code_simp

text \<open>
  A number is found under the string it converts to, and under no other; the big integer
  5 has the key of the number 5.
\<close>

lemma test_number_keys:
  "search_results giant_db None (Some [(''hp'', JNum ''1e+21'')]) = [Some giant] \<and>
   search_results giant_db None (Some [(''hp'', JStr ''1e+21'')]) = [Some giant] \<and>
   search_results giant_db None (Some [(''hp'', JStr ''1000000000000000000000'')]) = [] \<and>
   search_results hp_db None (Some [(''hp'', JBig 5)]) = [Some enemy]"
  by code_simp

subsection \<open>What search leaves unchanged\<close>


lemma is_length_pool [simp]: "is_length (g\<lparr> pool := p \<rparr>) = is_length g"
  by (rule ext) (simp add: is_length_def)

lemma is_length_spatialIndex [simp]: "is_length (g\<lparr> spatialIndex := t \<rparr>) = is_length g"
  by (rule ext) (simp add: is_length_def)

lemma is_length_fieldIndexes [simp]: "is_length (g\<lparr> fieldIndexes := fi \<rparr>) = is_length g"
  by (rule ext) (simp add: is_length_def)

lemma is_length_byId [simp]: "is_length (g\<lparr> byId := b \<rparr>) = is_length g"
  by (rule ext) (simp add: is_length_def)

lemma is_length_cong: "byId_is_array g' = byId_is_array g \<Longrightarrow> is_length g' = is_length g"
  by (rule ext) (simp add: is_length_def)

lemma byId_get_cong:
  "byId g' = byId g \<Longrightarrow> byId_is_array g' = byId_is_array g \<Longrightarrow> byId_get g' = byId_get g"
  by (rule ext) (simp add: byId_get_def is_length_def)

lemma byId_get_pool [simp]: "byId_get (g\<lparr> pool := p \<rparr>) = byId_get g"
  by (rule byId_get_cong) simp_all

lemma fieldSearch_frame:
  "fieldsToIndex (snd (fieldSearch q g)) = fieldsToIndex g \<and>
   fieldIndexes (snd (fieldSearch q g)) = fieldIndexes g \<and>
   byId (snd (fieldSearch q g)) = byId g \<and> byId_is_array (snd (fieldSearch q g)) = byId_is_array g \<and>
   spatialIndex (snd (fieldSearch q g)) = spatialIndex g"
proof (induction q arbitrary: g)
  case Nil
  show ?case by simp
next
  case (Cons p q)
  obtain field v where p: "p = (field, v)" by (cases p)
  show ?case
  proof (cases "map_of (fieldIndexes g) field")
    case None
    then show ?thesis by (simp add: p)
  next
    case (Some fieldIndex)
    then show ?thesis by (simp add: p Let_def Cons.IH)
  qed
qed

lemma intersect_both_frame:
  "intersect_both g = g\<lparr> pool := pool (intersect_both g) \<rparr>"
  by (simp add: intersect_both_def Let_def split: prod.splits)

lemma intersect_fields_frame:
  "intersect_fields g = g\<lparr> pool := pool (intersect_fields g) \<rparr>"
  by (simp add: intersect_fields_def Let_def split: prod.splits list.splits)

lemma spatialSearch_frame:
  "spatialSearch b g = g\<lparr> pool := pool (spatialSearch b g) \<rparr>"
  by (simp add: spatialSearch_def)

lemma same_up_to_pool:
  "fieldsToIndex g' = fieldsToIndex g \<Longrightarrow> fieldIndexes g' = fieldIndexes g \<Longrightarrow>
   byId g' = byId g \<Longrightarrow> byId_is_array g' = byId_is_array g \<Longrightarrow>
   spatialIndex g' = spatialIndex g \<Longrightarrow>
   (g'::gamedb) = g\<lparr> pool := pool g' \<rparr>"
  by (cases g, cases g') simp

lemma up_to_pool_fields:
  "g' = g\<lparr> pool := p \<rparr> \<Longrightarrow>
   fieldsToIndex g' = fieldsToIndex g \<and> fieldIndexes g' = fieldIndexes g \<and>
   byId g' = byId g \<and> byId_is_array g' = byId_is_array g \<and> spatialIndex g' = spatialIndex g"
  by simp

lemma search_frame:
  "fieldsToIndex (fst (snd (search g bounds query results))) = fieldsToIndex g \<and>
   fieldIndexes (fst (snd (search g bounds query results))) = fieldIndexes g \<and>
   byId (fst (snd (search g bounds query results))) = byId g \<and> byId_is_array (fst (snd (search g bounds query results))) = byId_is_array g \<and>
   spatialIndex (fst (snd (search g bounds query results))) = spatialIndex g"
proof -
  define g1 where "g1 = clearPool g"
  define g2 where "g2 = (case bounds of Some b \<Rightarrow> spatialSearch b g1 | None \<Rightarrow> g1)"
  define r3 where "r3 = (case query of Some q \<Rightarrow> fieldSearch q g2 | None \<Rightarrow> (None, g2))"
  define g4 where "g4 = (if bounds \<noteq> None \<and> query \<noteq> None then intersect_both (snd r3)
                        else if bounds \<noteq> None
                        then (snd r3)\<lparr> pool := (pool (snd r3))\<lparr> resultReference := Some (spatial (pool (snd r3))) \<rparr> \<rparr>
                        else if query \<noteq> None then intersect_fields (snd r3)
                        else snd r3)"
  have f1: "fieldsToIndex g1 = fieldsToIndex g \<and> fieldIndexes g1 = fieldIndexes g \<and>
            byId g1 = byId g \<and> byId_is_array g1 = byId_is_array g \<and> spatialIndex g1 = spatialIndex g"
    by (simp add: g1_def clearPool_def)
  have f2: "fieldsToIndex g2 = fieldsToIndex g \<and> fieldIndexes g2 = fieldIndexes g \<and>
            byId g2 = byId g \<and> byId_is_array g2 = byId_is_array g \<and> spatialIndex g2 = spatialIndex g"
    using f1 by (cases bounds) (simp_all add: g2_def spatialSearch_def)
  have f3: "fieldsToIndex (snd r3) = fieldsToIndex g \<and> fieldIndexes (snd r3) = fieldIndexes g \<and>
            byId (snd r3) = byId g \<and> byId_is_array (snd r3) = byId_is_array g \<and> spatialIndex (snd r3) = spatialIndex g"
    using f2 by (cases query) (simp_all add: r3_def fieldSearch_frame)
  have f4: "fieldsToIndex g4 = fieldsToIndex g \<and> fieldIndexes g4 = fieldIndexes g \<and>
            byId g4 = byId g \<and> byId_is_array g4 = byId_is_array g \<and> spatialIndex g4 = spatialIndex g"
    using f3 up_to_pool_fields [OF intersect_both_frame [of "snd r3"]]
      up_to_pool_fields [OF intersect_fields_frame [of "snd r3"]]
    by (simp add: g4_def)
  have s: "fst (snd (search g bounds query results)) =
           (case fst r3 of Some e \<Rightarrow> snd r3 | None \<Rightarrow> g4)"
    by (simp add: search_def Let_def g1_def g2_def r3_def g4_def split: prod.splits option.splits)
  show ?thesis
    using f3 f4 by (cases "fst r3") (simp_all add: s)
qed

subsection \<open>The intersection loops\<close>

lemma set_intersect_loop:
  "set (intersect_loop xs keep acc) = set acc \<union> {x \<in> set xs. keep x}"
  by (induction xs arbitrary: acc) (auto simp: set_add_def set_has_def)

lemma intersects_iff:
  "intersects sets i k x \<longleftrightarrow> (\<forall>j<length sets. i + int j \<noteq> k \<longrightarrow> x \<in> set (sets ! j))"
proof (induction sets arbitrary: i)
  case Nil
  show ?case by simp
next
  case (Cons c rest)
  have split: "(\<forall>j<length (c # rest). i + int j \<noteq> k \<longrightarrow> x \<in> set ((c # rest) ! j)) \<longleftrightarrow>
        (i \<noteq> k \<longrightarrow> x \<in> set c) \<and> (\<forall>j<length rest. i + 1 + int j \<noteq> k \<longrightarrow> x \<in> set (rest ! j))"
    (is "?L \<longleftrightarrow> ?A \<and> ?B")
  proof
    assume l: ?L
    have a: ?A using l [rule_format, of 0] by simp
    have b: ?B
    proof (intro allI impI)
      fix j assume "j < length rest" "i + 1 + int j \<noteq> k"
      then show "x \<in> set (rest ! j)" using l [rule_format, of "Suc j"] by simp
    qed
    show "?A \<and> ?B" using a b by simp
  next
    assume ab: "?A \<and> ?B"
    show ?L
    proof (intro allI impI)
      fix j assume j: "j < length (c # rest)" "i + int j \<noteq> k"
      show "x \<in> set ((c # rest) ! j)"
      proof (cases j)
        case 0
        then show ?thesis using ab j by simp
      next
        case (Suc j')
        then show ?thesis using ab j by (simp add: add.assoc)
      qed
    qed
  qed
  have ih: "intersects rest (i + 1) k x \<longleftrightarrow>
            (\<forall>j<length rest. i + 1 + int j \<noteq> k \<longrightarrow> x \<in> set (rest ! j))"
    by (rule Cons.IH)
  have step: "intersects (c # rest) i k x \<longleftrightarrow>
              (i \<noteq> k \<longrightarrow> x \<in> set c) \<and> intersects rest (i + 1) k x"
    by (simp add: set_has_def)
  show ?case
    unfolding split step ih ..
qed

lemma find_smallest_index:
  "find_smallest fs i s k = (s', k') \<Longrightarrow>
   (s' = s \<and> k' = k) \<or> (\<exists>j<length fs. k' = i + int j \<and> s' = fs ! j)"
proof (induction fs arbitrary: i s k)
  case Nil
  then show ?case by simp
next
  case (Cons f rest)
  show ?case
  proof (cases "length f < length s")
    case True
    then have "find_smallest rest (i + 1) f i = (s', k')" using Cons.prems by simp
    from Cons.IH [OF this]
    show ?thesis
    proof
      assume "s' = f \<and> k' = i"
      then show ?thesis by auto
    next
      assume "\<exists>j<length rest. k' = i + 1 + int j \<and> s' = rest ! j"
      then obtain j where "j < length rest" "k' = i + 1 + int j" "s' = rest ! j" by blast
      then have "Suc j < length (f # rest) \<and> k' = i + int (Suc j) \<and> s' = (f # rest) ! Suc j"
        by simp
      then show ?thesis by blast
    qed
  next
    case False
    then have "find_smallest rest (i + 1) s k = (s', k')" using Cons.prems by simp
    from Cons.IH [OF this]
    show ?thesis
    proof
      assume "s' = s \<and> k' = k"
      then show ?thesis by simp
    next
      assume "\<exists>j<length rest. k' = i + 1 + int j \<and> s' = rest ! j"
      then obtain j where "j < length rest" "k' = i + 1 + int j" "s' = rest ! j" by blast
      then have "Suc j < length (f # rest) \<and> k' = i + int (Suc j) \<and> s' = (f # rest) ! Suc j"
        by simp
      then show ?thesis by blast
    qed
  qed
qed

lemma pivot_intersection:
  assumes "j < length sets"
  shows "{x \<in> set (sets ! j). \<forall>j'<length sets. j' \<noteq> j \<longrightarrow> x \<in> set (sets ! j')} =
         \<Inter> (set ` set sets)"
proof
  show "{x \<in> set (sets ! j). \<forall>j'<length sets. j' \<noteq> j \<longrightarrow> x \<in> set (sets ! j')}
        \<subseteq> \<Inter> (set ` set sets)"
  proof
    fix x assume x: "x \<in> {x \<in> set (sets ! j). \<forall>j'<length sets. j' \<noteq> j \<longrightarrow> x \<in> set (sets ! j')}"
    have "x \<in> set s" if "s \<in> set sets" for s
    proof -
      from that obtain n where n: "n < length sets" "s = sets ! n"
        by (auto simp: in_set_conv_nth)
      show ?thesis using x n by (cases "n = j") auto
    qed
    then show "x \<in> \<Inter> (set ` set sets)" by blast
  qed
next
  show "\<Inter> (set ` set sets) \<subseteq>
        {x \<in> set (sets ! j). \<forall>j'<length sets. j' \<noteq> j \<longrightarrow> x \<in> set (sets ! j')}"
    using assms by auto
qed

text \<open>The intersection starting from the set at index k of a sequence whose first index is i0.\<close>

lemma pivot_loop:
  assumes j: "j < length sets" and k: "k = i0 + int j"
  shows "set (intersect_loop (sets ! j) (intersects sets i0 k) acc) =
         set acc \<union> \<Inter> (set ` set sets)"
proof -
  have "{x \<in> set (sets ! j). intersects sets i0 k x} =
        {x \<in> set (sets ! j). \<forall>j'<length sets. j' \<noteq> j \<longrightarrow> x \<in> set (sets ! j')}"
    by (auto simp: intersects_iff k)
  then show ?thesis
    by (simp add: set_intersect_loop pivot_intersection [OF j])
qed

lemma ids_intersect_both:
  assumes "fields_p (pool g) \<noteq> []" "spatial (pool g) \<noteq> []"
  shows "set (ids (pool (intersect_both g))) =
         set (ids (pool g)) \<union> (set (spatial (pool g)) \<inter> \<Inter> (set ` set (fields_p (pool g))))"
proof -
  obtain s' k' where fs: "find_smallest (fields_p (pool g)) 0 (spatial (pool g)) (- 1) = (s', k')"
    by (cases "find_smallest (fields_p (pool g)) 0 (spatial (pool g)) (- 1)")
  let ?all = "spatial (pool g) # fields_p (pool g)"
  have "\<exists>j<length ?all. k' = - 1 + int j \<and> s' = ?all ! j"
    using find_smallest_index [OF fs]
  proof
    assume "s' = spatial (pool g) \<and> k' = - 1"
    then have "0 < length ?all \<and> k' = - 1 + int 0 \<and> s' = ?all ! 0" by simp
    then show ?thesis by blast
  next
    assume "\<exists>j<length (fields_p (pool g)). k' = 0 + int j \<and> s' = fields_p (pool g) ! j"
    then obtain j where "j < length (fields_p (pool g))" "k' = int j" "s' = fields_p (pool g) ! j"
      by auto
    then have "Suc j < length ?all \<and> k' = - 1 + int (Suc j) \<and> s' = ?all ! Suc j" by simp
    then show ?thesis by blast
  qed
  then obtain j where j: "j < length ?all" "k' = - 1 + int j" "s' = ?all ! j" by blast
  have "set (intersect_loop s' (intersects ?all (- 1) k') (ids (pool g))) =
        set (ids (pool g)) \<union> \<Inter> (set ` set ?all)"
    using pivot_loop [OF j(1) j(2), of "ids (pool g)"] j(3) by simp
  then show ?thesis
    using assms by (simp add: intersect_both_def fs)
qed

lemma ids_intersect_fields:
  assumes "length (fields_p (pool g)) \<ge> 2"
  shows "set (ids (pool (intersect_fields g))) =
         set (ids (pool g)) \<union> \<Inter> (set ` set (fields_p (pool g)))"
proof -
  from assms obtain first second rest where fl: "fields_p (pool g) = first # second # rest"
    by (cases "fields_p (pool g)"; cases "tl (fields_p (pool g))") auto
  obtain s' k' where fs: "find_smallest (second # rest) 1 first 0 = (s', k')"
    by (cases "find_smallest (second # rest) 1 first 0")
  let ?all = "first # second # rest"
  have "\<exists>j<length ?all. k' = 0 + int j \<and> s' = ?all ! j"
    using find_smallest_index [OF fs]
  proof
    assume "s' = first \<and> k' = 0"
    then have "0 < length ?all \<and> k' = 0 + int 0 \<and> s' = ?all ! 0" by simp
    then show ?thesis by blast
  next
    assume "\<exists>j<length (second # rest). k' = 1 + int j \<and> s' = (second # rest) ! j"
    then obtain j where "j < length (second # rest)" "k' = 1 + int j" "s' = (second # rest) ! j"
      by auto
    then have "Suc j < length ?all \<and> k' = 0 + int (Suc j) \<and> s' = ?all ! Suc j" by simp
    then show ?thesis by blast
  qed
  then obtain j where j: "j < length ?all" "k' = 0 + int j" "s' = ?all ! j" by blast
  have "set (intersect_loop s' (intersects ?all 0 k') (ids (pool g))) =
        set (ids (pool g)) \<union> \<Inter> (set ` set ?all)"
    using pivot_loop [OF j(1) j(2), of "ids (pool g)"] j(3) by simp
  then show ?thesis
    using fs by (simp add: intersect_fields_def fl)
qed

subsection \<open>The outcome of a search\<close>


lemma field_lookup_pool [simp]: "field_lookup (g\<lparr> pool := p \<rparr>) c = field_lookup g c"
  by (simp add: field_lookup_def index_set_def slot_def)

lemma known_fields_pool [simp]: "known_fields (g\<lparr> pool := p \<rparr>) q = known_fields g q"
  by (simp add: known_fields_def)

lemma fieldSearch_known:
  "known_fields g q \<Longrightarrow>
   fieldSearch q g =
     (None, g\<lparr> pool := (pool g)\<lparr> fields_p := fields_p (pool g) @ map (field_lookup g) q \<rparr> \<rparr>)"
proof (induction q arbitrary: g)
  case Nil
  show ?case by simp
next
  case (Cons c q)
  obtain field v where c: "c = (field, v)" by (cases c)
  from Cons.prems obtain fieldIndex where fi: "map_of (fieldIndexes g) field = Some fieldIndex"
    by (auto simp: known_fields_def c)
  define result where "result = (case map_of fieldIndex (prop_key v) of
                           None \<Rightarrow> emptySet | Some s \<Rightarrow> s)"
  define g' where "g' = g\<lparr> pool := (pool g)\<lparr> fields_p := fields_p (pool g) @ [result] \<rparr> \<rparr>"
  have r: "field_lookup g c = result"
    by (simp add: field_lookup_def index_set_def slot_def c fi result_def)
  have k: "known_fields g' q"
    using Cons.prems by (simp add: g'_def known_fields_def)
  have "fieldSearch (c # q) g = fieldSearch q g'"
    by (simp add: c fi Let_def result_def g'_def)
  also have "\<dots> = (None, g'\<lparr> pool := (pool g')\<lparr> fields_p := fields_p (pool g') @ map (field_lookup g') q \<rparr> \<rparr>)"
    by (rule Cons.IH [OF k])
  also have "\<dots> = (None, g\<lparr> pool := (pool g)\<lparr> fields_p := fields_p (pool g) @ map (field_lookup g) (c # q) \<rparr> \<rparr>)"
    by (simp add: g'_def r)
  finally show ?case .
qed

lemma fieldSearch_unknown:
  "\<not> known_fields g q \<Longrightarrow> fst (fieldSearch q g) = Some TypeError"
proof (induction q arbitrary: g)
  case Nil
  then show ?case by (simp add: known_fields_def)
next
  case (Cons c q)
  obtain field v where c: "c = (field, v)" by (cases c)
  show ?case
  proof (cases "map_of (fieldIndexes g) field")
    case None
    then show ?thesis by (simp add: c)
  next
    case (Some fieldIndex)
    define g' where "g' = g\<lparr> pool := (pool g)\<lparr> fields_p := fields_p (pool g) @
        [case map_of fieldIndex (prop_key v) of None \<Rightarrow> emptySet | Some s \<Rightarrow> s] \<rparr> \<rparr>"
    have "\<not> known_fields g' q"
      using Cons.prems Some by (simp add: g'_def known_fields_def c)
    then have "fst (fieldSearch q g') = Some TypeError" by (rule Cons.IH)
    then show ?thesis by (simp add: c Some Let_def g'_def)
  qed
qed

lemma fieldSearch_pool:
  "spatial (pool (snd (fieldSearch q g))) = spatial (pool g) \<and>
   ids (pool (snd (fieldSearch q g))) = ids (pool g) \<and>
   resultReference (pool (snd (fieldSearch q g))) = resultReference (pool g)"
proof (induction q arbitrary: g)
  case Nil
  show ?case by simp
next
  case (Cons c q)
  obtain field v where c: "c = (field, v)" by (cases c)
  show ?case
  proof (cases "map_of (fieldIndexes g) field")
    case None
    then show ?thesis by (simp add: c)
  next
    case (Some fieldIndex)
    then show ?thesis by (simp add: c Let_def Cons.IH)
  qed
qed

lemma search_unknown:
  assumes "\<not> known_fields g q"
  shows "fst (search g bounds (Some q) results) = Some TypeError"
    and "snd (snd (search g bounds (Some q) results)) = []"
    and "useResults (fst (snd (search g bounds (Some q) results))) = []"
proof -
  define g2 where "g2 = (case bounds of Some b \<Rightarrow> spatialSearch b (clearPool g) | None \<Rightarrow> clearPool g)"
  have k: "\<not> known_fields g2 q"
    using assms by (cases bounds) (simp_all add: g2_def known_fields_def clearPool_def spatialSearch_def)
  have e: "fst (fieldSearch q g2) = Some TypeError"
    by (rule fieldSearch_unknown [OF k])
  obtain g3 where fs: "fieldSearch q g2 = (Some TypeError, g3)"
    using e by (cases "fieldSearch q g2") simp
  have g3: "g3 = snd (fieldSearch q g2)" by (simp add: fs)
  have s: "search g bounds (Some q) results = (Some TypeError, g3, [])"
  proof (cases bounds)
    case None
    then show ?thesis
      using fs by (simp add: search_def Let_def g2_def clearBuffer_def)
  next
    case (Some b)
    then show ?thesis
      using fs by (simp add: search_def Let_def g2_def clearBuffer_def)
  qed
  have p: "ids (pool g2) = [] \<and> resultReference (pool g2) = None"
    by (cases bounds) (simp_all add: g2_def clearPool_def spatialSearch_def)
  show "fst (search g bounds (Some q) results) = Some TypeError" by (simp add: s)
  show "snd (snd (search g bounds (Some q) results)) = []" by (simp add: s)
  show "useResults (fst (snd (search g bounds (Some q) results))) = []"
    using p by (simp add: s g3 useResults_def fieldSearch_pool)
qed

lemma spatial_after_search:
  "spatial (pool (spatialSearch b (clearPool g))) = spatial_hits g b"
  by (simp add: spatialSearch_def clearPool_def spatial_hits_def)

lemma search_bounds_only:
  "search g (Some b) None results =
     (None,
      g\<lparr> pool := \<lparr> spatial = spatial_hits g b, fields_p = [], ids = [],
                   resultReference = Some (spatial_hits g b) \<rparr> \<rparr>,
      map (byId_get g) (spatial_hits g b))"
  by (simp add: search_def Let_def clearBuffer_def resolve_def useResults_def
      spatialSearch_def clearPool_def spatial_hits_def)

lemma search_query_only:
  assumes "known_fields g q"
  shows "fst (search g None (Some q) results) = None"
    and "set (useResults (fst (snd (search g None (Some q) results)))) =
         (if q = [] then {} else (\<Inter>c\<in>set q. set (field_lookup g c)))"
    and "snd (snd (search g None (Some q) results)) =
         map (byId_get g) (useResults (fst (snd (search g None (Some q) results))))"
proof -
  define g3 where "g3 = (clearPool g)\<lparr> pool := (pool (clearPool g))\<lparr> fields_p := map (field_lookup g) q \<rparr> \<rparr>"
  have fs: "fieldSearch q (clearPool g) = (None, g3)"
    using fieldSearch_known [of "clearPool g" q] assms
    by (simp add: g3_def clearPool_def)
  have s: "search g None (Some q) results =
           (None, intersect_fields g3, map (byId_get (intersect_fields g3)) (useResults (intersect_fields g3)))"
    by (simp add: search_def Let_def fs clearBuffer_def resolve_def)
  have b: "byId_get (intersect_fields g3) = byId_get g"
  proof -
    have "byId_get (intersect_fields g3) = byId_get g3"
      using arg_cong [OF intersect_fields_frame [of g3], of byId_get] by simp
    then show ?thesis by (simp add: g3_def clearPool_def)
  qed
  have p3: "fields_p (pool g3) = map (field_lookup g) q \<and> ids (pool g3) = [] \<and>
            resultReference (pool g3) = None"
    by (simp add: g3_def clearPool_def)
  have u: "set (useResults (intersect_fields g3)) =
           (if q = [] then {} else (\<Inter>c\<in>set q. set (field_lookup g c)))"
  proof (cases q)
    case Nil
    then show ?thesis using p3 by (simp add: intersect_fields_def useResults_def)
  next
    case (Cons c q')
    show ?thesis
    proof (cases q')
      case Nil
      then show ?thesis using p3 Cons by (simp add: intersect_fields_def useResults_def)
    next
      case (Cons c' q'')
      have len: "length (fields_p (pool g3)) \<ge> 2"
        using p3 \<open>q = c # q'\<close> Cons by simp
      have rr: "resultReference (pool (intersect_fields g3)) = None"
        using p3 \<open>q = c # q'\<close> Cons
        by (simp add: intersect_fields_def Let_def split: prod.splits)
      have "set (ids (pool (intersect_fields g3))) = \<Inter> (set ` set (map (field_lookup g) q))"
        using ids_intersect_fields [OF len] p3 by simp
      then show ?thesis
        using rr \<open>q = c # q'\<close> by (simp add: useResults_def)
    qed
  qed
  show "fst (search g None (Some q) results) = None" by (simp add: s)
  show "set (useResults (fst (snd (search g None (Some q) results)))) =
         (if q = [] then {} else (\<Inter>c\<in>set q. set (field_lookup g c)))"
    using u by (simp add: s)
  show "snd (snd (search g None (Some q) results)) =
         map (byId_get g) (useResults (fst (snd (search g None (Some q) results))))"
    by (simp add: s b)
qed

lemma search_both:
  assumes "known_fields g q"
  shows "fst (search g (Some b) (Some q) results) = None"
    and "set (useResults (fst (snd (search g (Some b) (Some q) results)))) =
         (if q = [] then {} else set (spatial_hits g b) \<inter> (\<Inter>c\<in>set q. set (field_lookup g c)))"
    and "snd (snd (search g (Some b) (Some q) results)) =
         map (byId_get g) (useResults (fst (snd (search g (Some b) (Some q) results))))"
proof -
  define g2 where "g2 = spatialSearch b (clearPool g)"
  define g3 where "g3 = g2\<lparr> pool := (pool g2)\<lparr> fields_p := map (field_lookup g) q \<rparr> \<rparr>"
  have p2: "spatial (pool g2) = spatial_hits g b \<and> fields_p (pool g2) = [] \<and> ids (pool g2) = [] \<and>
            resultReference (pool g2) = None \<and> fieldIndexes g2 = fieldIndexes g \<and> byId g2 = byId g \<and>
            byId_is_array g2 = byId_is_array g"
    by (simp add: g2_def spatialSearch_def clearPool_def spatial_hits_def)
  have k2: "known_fields g2 q" using assms p2 by (simp add: known_fields_def)
  have fl: "field_lookup g2 = field_lookup g"
    using p2 by (auto simp: field_lookup_def index_set_def slot_def fun_eq_iff)
  have fs: "fieldSearch q g2 = (None, g3)"
    using fieldSearch_known [OF k2] p2 by (simp add: g3_def fl)
  have s: "search g (Some b) (Some q) results =
           (None, intersect_both g3, map (byId_get (intersect_both g3)) (useResults (intersect_both g3)))"
    using fs by (simp add: search_def Let_def clearBuffer_def resolve_def g2_def)
  have b: "byId_get (intersect_both g3) = byId_get g"
  proof -
    have "byId_get (intersect_both g3) = byId_get g3"
      using arg_cong [OF intersect_both_frame [of g3], of byId_get] by simp
    also have "\<dots> = byId_get g"
      by (rule byId_get_cong) (simp_all add: g3_def p2)
    finally show ?thesis .
  qed
  have p3: "spatial (pool g3) = spatial_hits g b \<and> fields_p (pool g3) = map (field_lookup g) q \<and>
            ids (pool g3) = [] \<and> resultReference (pool g3) = None"
    using p2 by (simp add: g3_def)
  have rr: "resultReference (pool (intersect_both g3)) = None"
    using p3 by (simp add: intersect_both_def Let_def split: prod.splits)
  have u: "set (useResults (intersect_both g3)) =
           (if q = [] then {} else set (spatial_hits g b) \<inter> (\<Inter>c\<in>set q. set (field_lookup g c)))"
  proof (cases "q \<noteq> [] \<and> spatial_hits g b \<noteq> []")
    case True
    then have "fields_p (pool g3) \<noteq> []" "spatial (pool g3) \<noteq> []" using p3 by simp_all
    from ids_intersect_both [OF this]
    show ?thesis using p3 rr True by (simp add: useResults_def)
  next
    case False
    then have "intersect_both g3 = g3" using p3 by (auto simp: intersect_both_def)
    then show ?thesis using p3 False by (auto simp: useResults_def)
  qed
  show "fst (search g (Some b) (Some q) results) = None" by (simp add: s)
  show "set (useResults (fst (snd (search g (Some b) (Some q) results)))) =
         (if q = [] then {} else set (spatial_hits g b) \<inter> (\<Inter>c\<in>set q. set (field_lookup g c)))"
    using u by (simp add: s)
  show "snd (snd (search g (Some b) (Some q) results)) =
         map (byId_get g) (useResults (fst (snd (search g (Some b) (Some q) results))))"
    by (simp add: s b)
qed

subsection \<open>Search and the spatial index\<close>


lemma fieldSearch_spatialIndex:
  "fieldSearch q (g\<lparr> spatialIndex := t \<rparr>) =
     (fst (fieldSearch q g), (snd (fieldSearch q g))\<lparr> spatialIndex := t \<rparr>)"
proof (induction q arbitrary: g)
  case Nil
  show ?case by simp
next
  case (Cons c q)
  obtain field v where c: "c = (field, v)" by (cases c)
  show ?case
  proof (cases "map_of (fieldIndexes g) field")
    case None
    then show ?thesis by (simp add: c)
  next
    case (Some fieldIndex)
    define g' where "g' = g\<lparr> pool := (pool g)\<lparr> fields_p := fields_p (pool g) @
        [case map_of fieldIndex (prop_key v) of None \<Rightarrow> emptySet | Some s \<Rightarrow> s] \<rparr> \<rparr>"
    have "fieldSearch (c # q) (g\<lparr> spatialIndex := t \<rparr>) = fieldSearch q (g'\<lparr> spatialIndex := t \<rparr>)"
      using Some unfolding g'_def by (cases g) (simp add: c Let_def)
    also have "\<dots> = (fst (fieldSearch q g'), (snd (fieldSearch q g'))\<lparr> spatialIndex := t \<rparr>)"
      by (rule Cons.IH)
    also have "fieldSearch q g' = fieldSearch (c # q) g"
      by (simp add: c Some Let_def g'_def)
    finally show ?thesis .
  qed
qed

lemma intersect_fields_spatialIndex:
  "intersect_fields (g\<lparr> spatialIndex := t \<rparr>) = (intersect_fields g)\<lparr> spatialIndex := t \<rparr>"
  by (simp add: intersect_fields_def Let_def split: list.splits prod.splits)

lemma byId_get_spatialIndex: "byId_get (g\<lparr> spatialIndex := t \<rparr>) = byId_get g"
  by (rule byId_get_cong) simp_all

lemma resolve_spatialIndex:
  "resolve (g\<lparr> spatialIndex := t \<rparr>) results = resolve g results"
  by (simp add: resolve_def useResults_def byId_get_spatialIndex split: option.splits)

lemma search_query_spatialIndex:
  "fst (search (g\<lparr> spatialIndex := t \<rparr>) None (Some q) results) = fst (search g None (Some q) results) \<and>
   snd (snd (search (g\<lparr> spatialIndex := t \<rparr>) None (Some q) results)) =
   snd (snd (search g None (Some q) results))"
proof -
  have cp: "clearPool (g\<lparr> spatialIndex := t \<rparr>) = (clearPool g)\<lparr> spatialIndex := t \<rparr>"
    by (simp add: clearPool_def)
  obtain err g3 where fs: "fieldSearch q (clearPool g) = (err, g3)"
    by (cases "fieldSearch q (clearPool g)")
  have fs': "fieldSearch q (clearPool (g\<lparr> spatialIndex := t \<rparr>)) = (err, g3\<lparr> spatialIndex := t \<rparr>)"
    by (simp add: cp fieldSearch_spatialIndex fs)
  show ?thesis
    by (cases err)
      (simp_all add: search_def Let_def fs fs' intersect_fields_spatialIndex resolve_spatialIndex)
qed

lemma move_eq:
  "snd (move g e) = g\<lparr> spatialIndex := sp_insert (entity_id e, handle e) (sp_remove (entity_id e) (spatialIndex g)) \<rparr>"
  by (simp add: move_def insertIntoSpatialIndex_def removeFromSpatialIndex_def)

subsection \<open>Insert in a configured engine\<close>

lemma keys_update: "k \<in> fst ` set al \<Longrightarrow> fst ` set (AList.update k v al) = fst ` set al"
  by (auto simp: dom_update)

lemma insert_loop_keys:
  "fst ` set (snd (insertIntoFieldIndex_loop fs e fi)) = fst ` set fi"
proof (induction fs arbitrary: fi)
  case Nil
  show ?case by simp
next
  case (Cons f fs)
  show ?case
  proof (cases "map_of fi f")
    case None
    then show ?thesis by simp
  next
    case (Some fieldIndex)
    then have k: "f \<in> fst ` set fi" by (force dest: map_of_SomeD)
    obtain fi' where step: "insertIntoFieldIndex_loop (f # fs) e fi =
        insertIntoFieldIndex_loop fs e (AList.update f fi' fi)"
      using Some by (simp add: Let_def)
    show ?thesis
      unfolding step Cons.IH by (rule keys_update [OF k])
  qed
qed

lemma insert_loop_ok:
  "set fs \<subseteq> fst ` set fi \<Longrightarrow> fst (insertIntoFieldIndex_loop fs e fi) = None"
proof (induction fs arbitrary: fi)
  case Nil
  show ?case by simp
next
  case (Cons f fs)
  from Cons.prems have k: "f \<in> fst ` set fi" by simp
  then obtain fieldIndex where fi: "map_of fi f = Some fieldIndex"
    by (metis map_of_eq_None_iff not_None_eq)
  obtain fi' where step: "insertIntoFieldIndex_loop (f # fs) e fi =
      insertIntoFieldIndex_loop fs e (AList.update f fi' fi)"
    using fi by (simp add: Let_def)
  have "set fs \<subseteq> fst ` set (AList.update f fi' fi)"
    using Cons.prems by (simp add: keys_update [OF k])
  then show ?case
    unfolding step by (rule Cons.IH)
qed

subsection \<open>The ids a search resolves\<close>




lemma index_set_indexed: "set (index_set g f k) \<subseteq> set (indexed_ids g)"
proof (cases "map_of (fieldIndexes g) f")
  case None
  then show ?thesis by (simp add: index_set_def slot_def emptySet_def)
next
  case (Some fieldIndex)
  note fi = this
  show ?thesis
  proof (cases "map_of fieldIndex k")
    case None
    then show ?thesis using fi by (simp add: index_set_def slot_def emptySet_def)
  next
    case (Some s)
    have "(f, fieldIndex) \<in> set (fieldIndexes g)" using fi by (rule map_of_SomeD)
    moreover have "(k, s) \<in> set fieldIndex" using Some by (rule map_of_SomeD)
    ultimately have "set s \<subseteq> set (indexed_ids g)"
      by (fastforce simp: indexed_ids_def)
    then show ?thesis using fi Some by (simp add: index_set_def slot_def)
  qed
qed

lemma field_lookup_indexed: "set (field_lookup g c) \<subseteq> set (indexed_ids g)"
  by (simp add: field_lookup_def index_set_indexed)

lemma ids_resolve_inj: "ids_resolve g \<Longrightarrow> inj_on (byId_get g) (set (indexed_ids g))"
proof (rule inj_onI)
  fix i j
  assume r: "ids_resolve g" and i: "i \<in> set (indexed_ids g)" and j: "j \<in> set (indexed_ids g)"
    and eq: "byId_get g i = byId_get g j"
  from r i obtain e where e: "byId_get g i = Some e" "entity_id e = i"
    by (auto simp: ids_resolve_def list_all_iff resolves_def split: option.splits)
  from r j obtain e' where e': "byId_get g j = Some e'" "entity_id e' = j"
    by (auto simp: ids_resolve_def list_all_iff resolves_def split: option.splits)
  show "i = j" using e e' eq by simp
qed


lemma search_ids_query:
  "set (search_ids g None (Some q)) =
     (if known_fields g q \<and> q \<noteq> [] then (\<Inter>c\<in>set q. set (field_lookup g c)) else {})"
proof (cases "known_fields g q")
  case True
  then show ?thesis using search_query_only(2) [OF True, of "[]"] by (simp add: search_ids_def)
next
  case False
  then show ?thesis using search_unknown(3) [OF False, of None "[]"] by (simp add: search_ids_def)
qed


lemma search_ids_query_indexed: "set (search_ids g None (Some q)) \<subseteq> set (indexed_ids g)"
proof (cases "known_fields g q \<and> q \<noteq> []")
  case True
  then obtain c where c: "c \<in> set q" by (cases q) auto
  have "(\<Inter>c\<in>set q. set (field_lookup g c)) \<subseteq> set (field_lookup g c)" using c by blast
  then show ?thesis using True field_lookup_indexed [of g c] by (simp add: search_ids_query)
next
  case False
  then have "set (search_ids g None (Some q)) = {}" by (auto simp: search_ids_query)
  then show ?thesis by simp
qed

lemma search_results_ids:
  "search_results g bounds query = map (byId_get g) (search_ids g bounds query)"
proof (cases query)
  case None
  show ?thesis
  proof (cases bounds)
    case None
    then show ?thesis using \<open>query = None\<close>
      by (simp add: search_results_def search_ids_def search_def Let_def clearBuffer_def
          clearPool_def resolve_def useResults_def)
  next
    case (Some b)
    then show ?thesis using \<open>query = None\<close>
      by (simp add: search_results_def search_ids_def search_bounds_only useResults_def)
  qed
next
  case (Some q)
  show ?thesis
  proof (cases "known_fields g q")
    case False
    then show ?thesis using Some search_unknown(2,3) [OF False, of bounds "[]"]
      by (simp add: search_results_def search_ids_def)
  next
    case True
    show ?thesis
    proof (cases bounds)
      case None
      then show ?thesis using Some search_query_only(3) [OF True, of "[]"]
        by (simp add: search_results_def search_ids_def)
    next
      case (Some b)
      then show ?thesis using \<open>query = Some q\<close> search_both(3) [OF True, of b "[]"]
        by (simp add: search_results_def search_ids_def)
    qed
  qed
qed

lemma known_fields_single: "known_fields g q \<Longrightarrow> c \<in> set q \<Longrightarrow> known_fields g [c]"
  by (simp add: known_fields_def list_all_iff)

lemma search_ids_single:
  "set (search_ids g None (Some [c])) = (if known_fields g [c] then set (field_lookup g c) else {})"
  by (simp add: search_ids_query)

lemma search_ids_multi:
  assumes "q \<noteq> []"
  shows "set (search_ids g None (Some q)) = (\<Inter>c\<in>set q. set (search_ids g None (Some [c])))"
proof (cases "known_fields g q")
  case True
  then have "\<forall>c\<in>set q. known_fields g [c]" by (simp add: known_fields_def list_all_iff)
  then show ?thesis using True assms by (simp add: search_ids_query)
next
  case False
  then obtain c where c: "c \<in> set q" "\<not> known_fields g [c]"
    by (auto simp: known_fields_def list_all_iff)
  then have "set (search_ids g None (Some [c])) = {}" by (simp add: search_ids_query)
  then have "(\<Inter>c\<in>set q. set (search_ids g None (Some [c]))) = {}" using c(1) by blast
  then show ?thesis using False by (simp add: search_ids_query)
qed

lemma search_ids_order:
  assumes "set q' = set q"
  shows "set (search_ids g None (Some q')) = set (search_ids g None (Some q))"
proof -
  have "known_fields g q' = known_fields g q" using assms by (simp add: known_fields_def list_all_iff)
  moreover have "(q' = []) = (q = [])" using assms by (metis set_empty)
  ultimately show ?thesis using assms by (simp add: search_ids_query)
qed

subsection \<open>Insert, remove and the invariants\<close>

lemma configured_sub_index:
  "configured g \<Longrightarrow> (map_of (fieldIndexes g) f \<noteq> None) = (f \<in> set (fieldsToIndex g))"
  by (auto simp: configured_def map_of_eq_None_iff)

lemma insert_db_length:
  "is_length g (prop_key (entity_id e)) \<Longrightarrow> insert_db g e = (Some RangeError, g)"
  by (simp add: insert_db_def insertIntoIdIndex_def)

lemma insert_db_eq:
  assumes "\<not> is_length g (prop_key (entity_id e))"
  shows "insert_db g e =
     (case fst (insertIntoFieldIndex_loop (fieldsToIndex g) e (fieldIndexes g)) of
        Some x \<Rightarrow>
          (Some x, g\<lparr> byId := AList.update (prop_key (entity_id e)) e (byId g),
                       fieldIndexes := snd (insertIntoFieldIndex_loop (fieldsToIndex g) e (fieldIndexes g)) \<rparr>)
      | None \<Rightarrow>
          (None, g\<lparr> byId := AList.update (prop_key (entity_id e)) e (byId g),
                     fieldIndexes := snd (insertIntoFieldIndex_loop (fieldsToIndex g) e (fieldIndexes g)),
                     spatialIndex := spatialIndex g @ [(entity_id e, handle e)] \<rparr>))"
proof -
  obtain err fi where l: "insertIntoFieldIndex_loop (fieldsToIndex g) e (fieldIndexes g) = (err, fi)"
    by (cases "insertIntoFieldIndex_loop (fieldsToIndex g) e (fieldIndexes g)")
  show ?thesis
    using assms
    by (cases err)
      (simp_all add: insert_db_def insertIntoFieldIndex_def insertIntoIdIndex_def
        insertIntoSpatialIndex_def sp_insert_def l)
qed

lemma insert_db_status:
  assumes "configured g"
  shows "fst (insert_db g e) =
         (if is_length g (prop_key (entity_id e)) then Some RangeError else None)"
proof (cases "is_length g (prop_key (entity_id e))")
  case True
  then show ?thesis by (simp add: insert_db_length)
next
  case False
  have "set (fieldsToIndex g) \<subseteq> fst ` set (fieldIndexes g)"
    using assms by (simp add: configured_def)
  then have "fst (insertIntoFieldIndex_loop (fieldsToIndex g) e (fieldIndexes g)) = None"
    by (rule insert_loop_ok)
  then show ?thesis using False by (simp add: insert_db_eq)
qed

lemma insert_db_ok:
  "configured g \<Longrightarrow> \<not> is_length g (prop_key (entity_id e)) \<Longrightarrow> fst (insert_db g e) = None"
  by (simp add: insert_db_status)

lemma insert_db_byId:
  "\<not> is_length g (prop_key (entity_id e)) \<Longrightarrow>
   byId (snd (insert_db g e)) = AList.update (prop_key (entity_id e)) e (byId g)"
  by (simp add: insert_db_eq split: option.splits)

lemma insert_db_spatialIndex:
  assumes "fst (insert_db g e) = None"
  shows "spatialIndex (snd (insert_db g e)) = spatialIndex g @ [(entity_id e, handle e)]"
proof (cases "is_length g (prop_key (entity_id e))")
  case True
  then show ?thesis using assms by (simp add: insert_db_length)
next
  case False
  then show ?thesis using assms by (simp add: insert_db_eq split: option.splits)
qed

lemma insert_db_array: "byId_is_array (snd (insert_db g e)) = byId_is_array g"
proof (cases "is_length g (prop_key (entity_id e))")
  case True
  then show ?thesis by (simp add: insert_db_length)
next
  case False
  then show ?thesis by (simp add: insert_db_eq split: option.splits)
qed

lemma has_slot_update:
  assumes "map_of fi f = Some fieldIndex" and "map_of fieldIndex k = Some s"
  shows "has_slot (AList.update f (AList.update k s' fieldIndex) fi) e f' = has_slot fi e f'"
proof (cases "f' = f")
  case True
  show ?thesis
  proof (cases "prop_key (entity_get e f) = k")
    case True
    then show ?thesis using \<open>f' = f\<close> assms by (simp add: has_slot_def update_conv')
  next
    case False
    then show ?thesis using \<open>f' = f\<close> assms by (simp add: has_slot_def update_conv')
  qed
next
  case False
  then show ?thesis by (simp add: has_slot_def update_conv')
qed

lemma remove_loop_status:
  "fst (remove_loop fs e fi) = (if list_all (has_slot fi e) fs then None else Some TypeError)"
proof (induction fs arbitrary: fi)
  case Nil
  show ?case by simp
next
  case (Cons f fs)
  show ?case
  proof (cases "map_of fi f")
    case None
    then show ?thesis by (simp add: has_slot_def)
  next
    case (Some fieldIndex)
    note fi = this
    show ?thesis
    proof (cases "map_of fieldIndex (prop_key (entity_get e f))")
      case None
      then show ?thesis using fi by (simp add: has_slot_def)
    next
      case (Some s)
      define fi' where "fi' = AList.update f
          (AList.update (prop_key (entity_get e f)) (set_delete (entity_id e) s) fieldIndex) fi"
      have step: "remove_loop (f # fs) e fi = remove_loop fs e fi'"
        using fi Some by (simp add: fi'_def)
      have same: "has_slot fi' e = has_slot fi e"
        unfolding fi'_def by (rule ext) (rule has_slot_update [OF fi Some])
      have here: "has_slot fi e f"
        using fi Some by (simp add: has_slot_def)
      show ?thesis
        unfolding step Cons.IH same using here by simp
    qed
  qed
qed

lemma remove_db_length:
  "is_length g (prop_key (entity_id e)) \<Longrightarrow> remove_db g e = (Some TypeError, g)"
  by (simp add: remove_db_def)

lemma remove_db_eq:
  assumes "\<not> is_length g (prop_key (entity_id e))"
  shows "remove_db g e =
     (case fst (remove_loop (fieldsToIndex g) e (fieldIndexes g)) of
        Some x \<Rightarrow>
          (Some x, g\<lparr> byId := AList.delete (prop_key (entity_id e)) (byId g),
                       fieldIndexes := snd (remove_loop (fieldsToIndex g) e (fieldIndexes g)) \<rparr>)
      | None \<Rightarrow>
          (None, g\<lparr> byId := AList.delete (prop_key (entity_id e)) (byId g),
                     fieldIndexes := snd (remove_loop (fieldsToIndex g) e (fieldIndexes g)),
                     spatialIndex := sp_remove (entity_id e) (spatialIndex g) \<rparr>))"
proof -
  obtain err fi where l: "remove_loop (fieldsToIndex g) e (fieldIndexes g) = (err, fi)"
    by (cases "remove_loop (fieldsToIndex g) e (fieldIndexes g)")
  show ?thesis
    using assms by (cases err) (simp_all add: remove_db_def removeFromSpatialIndex_def l)
qed


lemma remove_db_status:
  "fst (remove_db g e) =
     (if is_length g (prop_key (entity_id e)) then Some TypeError
      else if list_all (has_slot (fieldIndexes g) e) (fieldsToIndex g) then None
      else Some TypeError)"
proof (cases "is_length g (prop_key (entity_id e))")
  case True
  then show ?thesis by (simp add: remove_db_length)
next
  case False
  then show ?thesis by (simp add: remove_db_eq remove_loop_status)
qed

lemma remove_db_array: "byId_is_array (snd (remove_db g e)) = byId_is_array g"
proof (cases "is_length g (prop_key (entity_id e))")
  case True
  then show ?thesis by (simp add: remove_db_length)
next
  case False
  then show ?thesis by (simp add: remove_db_eq split: option.splits)
qed


lemma byId_get_Some:
  "byId_get g i = Some e \<longleftrightarrow> \<not> is_length g (prop_key i) \<and> map_of (byId g) (prop_key i) = Some e"
  by (simp add: byId_get_def)

lemma byId_get_None:
  "byId_get g i = None \<longleftrightarrow> is_length g (prop_key i) \<or> map_of (byId g) (prop_key i) = None"
  by (simp add: byId_get_def)

lemma byId_get_key: "prop_key i = prop_key j \<Longrightarrow> byId_get g i = byId_get g j"
  by (simp add: byId_get_def)

lemma stored_entity_lookup:
  assumes "store_inv g" and "e \<in> set (all_db g)"
  shows "byId_get g (entity_id e) = Some e"
proof -
  from assms(2) obtain k where k: "(k, e) \<in> set (byId g)"
    by (auto simp: all_db_def)
  have "prop_key (entity_id e) = k" and "\<not> is_length g k"
    using assms(1) k by (auto simp: store_inv_def list_all_iff)
  moreover have "map_of (byId g) k = Some e"
    using assms(1) k by (simp add: store_inv_def)
  ultimately show ?thesis by (simp add: byId_get_Some)
qed

lemma lookup_stored: "byId_get g i = Some e \<Longrightarrow> e \<in> set (all_db g)"
  by (force simp: byId_get_Some all_db_def dest: map_of_SomeD)

lemma field_index_inv_sub_index:
  "field_index_inv g \<Longrightarrow> f \<in> set (fieldsToIndex g) \<Longrightarrow> map_of (fieldIndexes g) f \<noteq> None"
  by (auto simp: field_index_inv_def list_all_iff split: option.splits)

lemma field_index_inv_sound:
  assumes "field_index_inv g" and "f \<in> set (fieldsToIndex g)" and "i \<in> set (index_set g f k)"
  shows "filed_under g f k i"
proof -
  from assms(1,2) obtain fieldIndex where fi: "map_of (fieldIndexes g) f = Some fieldIndex"
    and sound: "list_all (\<lambda>entry. list_all (filed_under g f (fst entry)) (snd entry)) fieldIndex"
    by (auto simp: field_index_inv_def list_all_iff split: option.splits)
  from assms(3) fi obtain s where s: "map_of fieldIndex k = Some s" "i \<in> set s"
    by (auto simp: index_set_def slot_def emptySet_def split: option.splits)
  have "(k, s) \<in> set fieldIndex" using s(1) by (rule map_of_SomeD)
  then show ?thesis using sound s(2) by (force simp: list_all_iff)
qed

lemma field_index_inv_complete:
  assumes "field_index_inv g" and "f \<in> set (fieldsToIndex g)" and "e \<in> set (all_db g)"
  shows "entity_id e \<in> set (index_set g f (prop_key (entity_get e f)))"
  using assms by (auto simp: field_index_inv_def list_all_iff set_has_def split: option.splits)

subsection \<open>The invariant of the engine state\<close>

lemma set_update_subset: "set (AList.update k v al) \<subseteq> insert (k, v) (set al)"
  by (induction al) auto

lemma update_fresh: "k \<notin> fst ` set al \<Longrightarrow> AList.update k v al = al @ [(k, v)]"
  by (induction al) auto

lemma slot_update:
  "slot (AList.update f x fi) f' k =
     (if f' = f then (case map_of x k of None \<Rightarrow> emptySet | Some s \<Rightarrow> s) else slot fi f' k)"
  by (simp add: slot_def update_conv')

lemma wf_index_update:
  assumes "wf_index fi" and "distinct (map fst x)"
  shows "wf_index (AList.update f x fi)"
proof -
  have "distinct (map fst (AList.update f x fi))"
    using assms(1) by (simp add: wf_index_def distinct_update)
  moreover have "distinct (map fst (snd sub))" if "sub \<in> set (AList.update f x fi)" for sub
  proof -
    from that set_update_subset [of f x fi] have "sub = (f, x) \<or> sub \<in> set fi" by auto
    then show ?thesis using assms by (auto simp: wf_index_def list_all_iff)
  qed
  ultimately show ?thesis by (simp add: wf_index_def list_all_iff)
qed

lemma wf_index_sub:
  "wf_index fi \<Longrightarrow> map_of fi f = Some x \<Longrightarrow> distinct (map fst x)"
  by (auto simp: wf_index_def list_all_iff dest!: map_of_SomeD)

lemma wf_index_empty_indexes: "wf_index (empty_indexes fs)"
proof -
  have "wf_index (foldl (\<lambda>m field. AList.update field [] m) m fs)" if "wf_index m" for m
    using that by (induction fs arbitrary: m) (simp_all add: wf_index_update)
  then show ?thesis by (simp add: empty_indexes_def wf_index_def)
qed

lemma keys_foldl_update:
  "fst ` set (foldl (\<lambda>m field. AList.update field v m) m fs) = fst ` set m \<union> set fs"
  by (induction fs arbitrary: m) (auto simp: dom_update)

lemma keys_empty_indexes: "fst ` set (empty_indexes fs) = set fs"
  by (simp add: empty_indexes_def keys_foldl_update)

lemma foldl_update_empty:
  assumes "\<And>f x. map_of m f = Some x \<Longrightarrow> x = []"
    and "map_of (foldl (\<lambda>m field. AList.update field [] m) m fs) f = Some x"
  shows "x = []"
  using assms
proof (induction fs arbitrary: m)
  case Nil
  then show ?case by simp
next
  case (Cons a fs)
  have "\<And>f x. map_of (AList.update a [] m) f = Some x \<Longrightarrow> x = []"
    using Cons.prems(1) by (auto simp: update_conv' split: if_splits)
  then show ?case using Cons.IH [of "AList.update a [] m"] Cons.prems(2) by simp
qed

lemma slot_empty_indexes: "slot (empty_indexes fs) f k = []"
proof (cases "map_of (empty_indexes fs) f")
  case None
  then show ?thesis by (simp add: slot_def emptySet_def)
next
  case (Some x)
  then have "x = []"
    using foldl_update_empty [of "[]" fs f x] by (simp add: empty_indexes_def)
  then show ?thesis using Some by (simp add: slot_def emptySet_def)
qed

text \<open>The invariant of the field index, read through the lookups.\<close>

lemma field_index_inv_iff:
  assumes "wf_index (fieldIndexes g)"
  shows "field_index_inv g \<longleftrightarrow>
         store_inv g \<and>
         (\<forall>f\<in>set (fieldsToIndex g).
            map_of (fieldIndexes g) f \<noteq> None \<and>
            (\<forall>k i. i \<in> set (index_set g f k) \<longleftrightarrow> filed_under g f k i))"
    (is "?L \<longleftrightarrow> ?S \<and> ?R")
proof
  assume l: ?L
  have s: ?S using l by (simp add: field_index_inv_def)
  have ?R
  proof (intro ballI conjI allI)
    fix f assume f: "f \<in> set (fieldsToIndex g)"
    show "map_of (fieldIndexes g) f \<noteq> None" by (rule field_index_inv_sub_index [OF l f])
    fix k i
    show "i \<in> set (index_set g f k) \<longleftrightarrow> filed_under g f k i"
    proof
      assume "i \<in> set (index_set g f k)"
      then show "filed_under g f k i" by (rule field_index_inv_sound [OF l f])
    next
      assume "filed_under g f k i"
      then obtain e where e: "byId_get g i = Some e" "entity_id e = i" "prop_key (entity_get e f) = k"
        by (auto simp: filed_under_def split: option.splits)
      have "e \<in> set (all_db g)" using e(1) by (rule lookup_stored)
      from field_index_inv_complete [OF l f this] show "i \<in> set (index_set g f k)"
        using e by simp
    qed
  qed
  then show "?S \<and> ?R" using s by simp
next
  assume sr: "?S \<and> ?R"
  have "case map_of (fieldIndexes g) f of
          None \<Rightarrow> False
        | Some fieldIndex \<Rightarrow>
            list_all (\<lambda>entry. list_all (filed_under g f (fst entry)) (snd entry)) fieldIndex \<and>
            list_all (\<lambda>e. set_has (index_set g f (prop_key (entity_get e f))) (entity_id e))
                     (all_db g)"
    if f: "f \<in> set (fieldsToIndex g)" for f
  proof -
    from sr f obtain fieldIndex where fi: "map_of (fieldIndexes g) f = Some fieldIndex" by auto
    have d: "distinct (map fst fieldIndex)" by (rule wf_index_sub [OF assms fi])
    have a: "filed_under g f k i" if "(k, s) \<in> set fieldIndex" "i \<in> set s" for k s i
    proof -
      have "map_of fieldIndex k = Some s" using d that(1) by simp
      then have "index_set g f k = s" by (simp add: index_set_def slot_def fi)
      then show ?thesis using sr f that(2) by auto
    qed
    have b: "entity_id e \<in> set (index_set g f (prop_key (entity_get e f)))"
      if "e \<in> set (all_db g)" for e
    proof -
      have "byId_get g (entity_id e) = Some e"
        using sr that by (simp add: stored_entity_lookup)
      then have "filed_under g f (prop_key (entity_get e f)) (entity_id e)"
        by (simp add: filed_under_def)
      then show ?thesis using sr f by auto
    qed
    show ?thesis
      using a b by (auto simp: fi list_all_iff set_has_def)
  qed
  then show ?L using sr by (simp add: field_index_inv_def list_all_iff)
qed

lemma db_inv_ids_resolve:
  assumes "db_inv g"
  shows "ids_resolve g"
proof -
  have c: "configured g" and w: "wf_index (fieldIndexes g)" and fi: "field_index_inv g"
    and sp: "spatial_inv g"
    using assms by (simp_all add: db_inv_def)
  have st: "store_inv g" using fi by (simp add: field_index_inv_def)
  have "resolves g i" if "i \<in> set (indexed_ids g)" for i
  proof -
    from that consider
      (spatial) "i \<in> fst ` set (spatialIndex g)"
      | (field) f sub k s where "(f, sub) \<in> set (fieldIndexes g)" "(k, s) \<in> set sub" "i \<in> set s"
      by (fastforce simp: indexed_ids_def)
    then show ?thesis
    proof cases
      case spatial
      then obtain e where e: "e \<in> set (all_db g)" "i = entity_id e"
        using sp by (auto simp: spatial_inv_def)
      then show ?thesis using stored_entity_lookup [OF st e(1)] by (simp add: resolves_def)
    next
      case field
      have "map_of (fieldIndexes g) f = Some sub"
        using w field(1) by (simp add: wf_index_def)
      moreover have "map_of sub k = Some s"
        using wf_index_sub [OF w \<open>map_of (fieldIndexes g) f = Some sub\<close>] field(2) by simp
      ultimately have "i \<in> set (index_set g f k)"
        using field(3) by (simp add: index_set_def slot_def)
      moreover have "f \<in> set (fieldsToIndex g)"
        using c field(1) by (force simp: configured_def)
      ultimately have "filed_under g f k i"
        using field_index_inv_sound [OF fi] by blast
      then show ?thesis by (auto simp: filed_under_def resolves_def split: option.splits)
    qed
  qed
  then show ?thesis by (simp add: ids_resolve_def list_all_iff)
qed

lemma db_inv_empty:
  assumes "byId g = []" and "spatialIndex g = []"
    and "fieldIndexes g = empty_indexes (fieldsToIndex g)"
  shows "db_inv g"
proof -
  have c: "configured g" by (simp add: configured_def assms(3) keys_empty_indexes)
  have w: "wf_index (fieldIndexes g)" by (simp add: assms(3) wf_index_empty_indexes)
  have s: "store_inv g" by (simp add: store_inv_def assms(1))
  have "field_index_inv g"
    unfolding field_index_inv_iff [OF w]
  proof (intro conjI ballI allI)
    show "store_inv g" by (rule s)
    fix f assume "f \<in> set (fieldsToIndex g)"
    then show "map_of (fieldIndexes g) f \<noteq> None"
      using configured_sub_index [OF c, of f] by simp
    fix k i
    show "i \<in> set (index_set g f k) \<longleftrightarrow> filed_under g f k i"
      by (simp add: index_set_def assms slot_empty_indexes filed_under_def byId_get_def)
  qed
  moreover have "spatial_inv g" by (simp add: spatial_inv_def assms all_db_def)
  ultimately show ?thesis using c w by (simp add: db_inv_def)
qed

lemma db_inv_new_GameDB: "db_inv (new_GameDB fs)"
  by (rule db_inv_empty) (simp_all add: new_GameDB_def)

subsection \<open>Insert keeps the invariant\<close>

lemma insert_step_slot:
  assumes "map_of fi f0 = Some fieldIndex"
  shows "set (slot (AList.update f0
                (case map_of fieldIndex k0 of
                   None \<Rightarrow> AList.update k0 [i] fieldIndex
                 | Some s \<Rightarrow> AList.update k0 (set_add i s) fieldIndex) fi) f k) =
         set (slot fi f k) \<union> (if f = f0 \<and> k = k0 then {i} else {})"
proof (cases "f = f0")
  case False
  then show ?thesis by (simp add: slot_update)
next
  case True
  show ?thesis
  proof (cases "map_of fieldIndex k0")
    case None
    then show ?thesis
      using True assms by (simp add: slot_update slot_def update_conv' emptySet_def)
  next
    case (Some s)
    then show ?thesis
      using True assms
      by (auto simp: slot_update slot_def update_conv' emptySet_def set_add_def set_has_def)
  qed
qed

lemma insert_loop_slot:
  "set fs \<subseteq> fst ` set fi \<Longrightarrow>
   set (slot (snd (insertIntoFieldIndex_loop fs e fi)) f k) =
     set (slot fi f k) \<union>
     (if f \<in> set fs \<and> k = prop_key (entity_get e f) then {entity_id e} else {})"
proof (induction fs arbitrary: fi)
  case Nil
  show ?case by simp
next
  case (Cons f0 fs)
  from Cons.prems have k: "f0 \<in> fst ` set fi" by simp
  then obtain fieldIndex where fi: "map_of fi f0 = Some fieldIndex"
    by (metis map_of_eq_None_iff not_None_eq)
  define fi' where "fi' = AList.update f0
      (case map_of fieldIndex (prop_key (entity_get e f0)) of
         None \<Rightarrow> AList.update (prop_key (entity_get e f0)) [entity_id e] fieldIndex
       | Some s \<Rightarrow> AList.update (prop_key (entity_get e f0)) (set_add (entity_id e) s) fieldIndex)
      fi"
  have step: "insertIntoFieldIndex_loop (f0 # fs) e fi = insertIntoFieldIndex_loop fs e fi'"
    using fi by (simp add: Let_def fi'_def)
  have sub: "set fs \<subseteq> fst ` set fi'"
    using Cons.prems by (simp add: fi'_def keys_update [OF k])
  have one: "set (slot fi' f k) =
             set (slot fi f k) \<union> (if f = f0 \<and> k = prop_key (entity_get e f0) then {entity_id e} else {})"
    unfolding fi'_def by (rule insert_step_slot [OF fi])
  show ?case
    unfolding step Cons.IH [OF sub] one by auto
qed

lemma insert_loop_wf:
  "wf_index fi \<Longrightarrow> wf_index (snd (insertIntoFieldIndex_loop fs e fi))"
proof (induction fs arbitrary: fi)
  case Nil
  then show ?case by simp
next
  case (Cons f0 fs)
  show ?case
  proof (cases "map_of fi f0")
    case None
    then show ?thesis using Cons.prems by simp
  next
    case (Some fieldIndex)
    define x where "x = (case map_of fieldIndex (prop_key (entity_get e f0)) of
         None \<Rightarrow> AList.update (prop_key (entity_get e f0)) [entity_id e] fieldIndex
       | Some s \<Rightarrow> AList.update (prop_key (entity_get e f0)) (set_add (entity_id e) s) fieldIndex)"
    have step: "insertIntoFieldIndex_loop (f0 # fs) e fi =
                insertIntoFieldIndex_loop fs e (AList.update f0 x fi)"
      using Some by (simp add: Let_def x_def)
    have "distinct (map fst fieldIndex)" by (rule wf_index_sub [OF Cons.prems Some])
    then have "distinct (map fst x)"
      by (simp add: x_def distinct_update split: option.splits)
    then have "wf_index (AList.update f0 x fi)"
      by (rule wf_index_update [OF Cons.prems])
    then show ?thesis unfolding step by (rule Cons.IH)
  qed
qed

lemma filed_under_insert:
  assumes "byId_get g (entity_id e) = None" and "byId g' = AList.update (prop_key (entity_id e)) e (byId g)"
    and "byId_is_array g' = byId_is_array g" and "\<not> is_length g (prop_key (entity_id e))"
  shows "filed_under g' f k i \<longleftrightarrow>
         filed_under g f k i \<or> (i = entity_id e \<and> k = prop_key (entity_get e f))"
proof (cases "prop_key i = prop_key (entity_id e)")
  case True
  have new: "byId_get g' i = Some e"
    using assms(2,3,4) True by (simp add: byId_get_def is_length_def update_conv')
  have old: "byId_get g i = None" using assms(1) byId_get_key [OF True, of g] by simp
  show ?thesis using new old by (auto simp: filed_under_def)
next
  case False
  have same: "byId_get g' i = byId_get g i"
    using assms(2,3) False by (simp add: byId_get_def is_length_def update_conv')
  have "i \<noteq> entity_id e" using False by auto
  then show ?thesis using same by (simp add: filed_under_def)
qed

lemma db_inv_insert:
  assumes inv: "db_inv g" and fresh: "byId_get g (entity_id e) = None"
  shows "db_inv (snd (insert_db g e))"
proof (cases "is_length g (prop_key (entity_id e))")
  case True
  then show ?thesis using inv by (simp add: insert_db_length)
next
  case nl: False
  let ?key = "prop_key (entity_id e)"
  let ?L = "snd (insertIntoFieldIndex_loop (fieldsToIndex g) e (fieldIndexes g))"
  define g' where "g' = snd (insert_db g e)"
  have c: "configured g" and w: "wf_index (fieldIndexes g)" and fi: "field_index_inv g"
    and sp: "spatial_inv g"
    using inv by (simp_all add: db_inv_def)
  have st: "store_inv g" using fi by (simp add: field_index_inv_def)
  have sub: "set (fieldsToIndex g) \<subseteq> fst ` set (fieldIndexes g)"
    using c by (simp add: configured_def)
  have ok: "fst (insertIntoFieldIndex_loop (fieldsToIndex g) e (fieldIndexes g)) = None"
    using sub by (rule insert_loop_ok)
  have g': "fieldsToIndex g' = fieldsToIndex g" "fieldIndexes g' = ?L"
    "byId g' = AList.update ?key e (byId g)"
    "spatialIndex g' = spatialIndex g @ [(entity_id e, handle e)]"
    "byId_is_array g' = byId_is_array g"
    using ok by (simp_all add: g'_def insert_db_eq [OF nl])
  have knew: "?key \<notin> fst ` set (byId g)"
    using fresh nl by (simp add: byId_get_None map_of_eq_None_iff)
  have byId': "byId g' = byId g @ [(?key, e)]"
    using knew by (simp add: g'(3) update_fresh)
  have c': "configured g'"
    using c by (simp add: configured_def g' insert_loop_keys)
  have w': "wf_index (fieldIndexes g')"
    using w by (simp add: g' insert_loop_wf)
  have st': "store_inv g'"
    using st knew nl by (simp add: store_inv_def byId' is_length_def g'(5))
  have semantic: "\<forall>f\<in>set (fieldsToIndex g).
            map_of (fieldIndexes g) f \<noteq> None \<and>
            (\<forall>k i. i \<in> set (index_set g f k) \<longleftrightarrow> filed_under g f k i)"
    using fi unfolding field_index_inv_iff [OF w] by simp
  have fi': "field_index_inv g'"
    unfolding field_index_inv_iff [OF w']
  proof (intro conjI ballI allI)
    show "store_inv g'" by (rule st')
    fix f assume "f \<in> set (fieldsToIndex g')"
    then have f: "f \<in> set (fieldsToIndex g)" by (simp add: g')
    show "map_of (fieldIndexes g') f \<noteq> None"
      using configured_sub_index [OF c', of f] f by (simp add: g')
    fix k i
    have "i \<in> set (index_set g' f k) \<longleftrightarrow>
          i \<in> set (index_set g f k) \<or> (i = entity_id e \<and> k = prop_key (entity_get e f))"
      using f by (auto simp: index_set_def g' insert_loop_slot [OF sub])
    also have "\<dots> \<longleftrightarrow> filed_under g f k i \<or> (i = entity_id e \<and> k = prop_key (entity_get e f))"
      using semantic f by simp
    also have "\<dots> \<longleftrightarrow> filed_under g' f k i"
      using filed_under_insert [OF fresh g'(3) g'(5) nl] by simp
    finally show "i \<in> set (index_set g' f k) \<longleftrightarrow> filed_under g' f k i" .
  qed
  have notin: "entity_id e \<notin> set (map entity_id (all_db g))"
  proof
    assume "entity_id e \<in> set (map entity_id (all_db g))"
    then obtain e0 where e0: "e0 \<in> set (all_db g)" "entity_id e0 = entity_id e" by auto
    from stored_entity_lookup [OF st e0(1)] show False using fresh e0(2) by simp
  qed
  have sp': "spatial_inv g'"
    using sp notin by (auto simp: spatial_inv_def g'(4) byId' all_db_def)
  show ?thesis
    using c' w' fi' sp' by (simp add: db_inv_def g'_def)
qed

subsection \<open>Remove keeps the invariant\<close>

lemma remove_step_slot:
  assumes "map_of fi f0 = Some fieldIndex" and "map_of fieldIndex k0 = Some s"
  shows "set (slot (AList.update f0 (AList.update k0 (set_delete i s) fieldIndex) fi) f k) =
         set (slot fi f k) - (if f = f0 \<and> k = k0 then {i} else {})"
proof (cases "f = f0")
  case False
  then show ?thesis by (simp add: slot_update)
next
  case True
  then show ?thesis
    using assms by (auto simp: slot_update slot_def update_conv' set_delete_def)
qed

lemma remove_loop_step:
  assumes "map_of fi f0 = Some fieldIndex" and "map_of fieldIndex (prop_key (entity_get e f0)) = Some s"
  shows "remove_loop (f0 # fs) e fi =
         remove_loop fs e (AList.update f0
           (AList.update (prop_key (entity_get e f0)) (set_delete (entity_id e) s) fieldIndex) fi)"
  using assms by simp

lemma has_slot_cases:
  assumes "has_slot fi e f0"
  obtains fieldIndex s where "map_of fi f0 = Some fieldIndex"
    and "map_of fieldIndex (prop_key (entity_get e f0)) = Some s"
  using assms by (auto simp: has_slot_def split: option.splits)

lemma remove_loop_slot:
  "list_all (has_slot fi e) fs \<Longrightarrow>
   set (slot (snd (remove_loop fs e fi)) f k) =
     set (slot fi f k) -
     (if f \<in> set fs \<and> k = prop_key (entity_get e f) then {entity_id e} else {})"
proof (induction fs arbitrary: fi)
  case Nil
  show ?case by simp
next
  case (Cons f0 fs)
  from Cons.prems have "has_slot fi e f0" by simp
  then obtain fieldIndex s where fi: "map_of fi f0 = Some fieldIndex"
    and s: "map_of fieldIndex (prop_key (entity_get e f0)) = Some s"
    by (rule has_slot_cases)
  define fi' where "fi' = AList.update f0
      (AList.update (prop_key (entity_get e f0)) (set_delete (entity_id e) s) fieldIndex) fi"
  have step: "remove_loop (f0 # fs) e fi = remove_loop fs e fi'"
    unfolding fi'_def by (rule remove_loop_step [OF fi s])
  have same: "has_slot fi' e = has_slot fi e"
    unfolding fi'_def by (rule ext) (rule has_slot_update [OF fi s])
  have rest: "list_all (has_slot fi' e) fs"
    using Cons.prems by (simp add: same)
  have one: "set (slot fi' f k) =
             set (slot fi f k) - (if f = f0 \<and> k = prop_key (entity_get e f0) then {entity_id e} else {})"
    unfolding fi'_def by (rule remove_step_slot [OF fi s])
  show ?case
    unfolding step Cons.IH [OF rest] one by auto
qed

lemma remove_loop_keys_any:
  "fst ` set (snd (remove_loop fs e fi)) = fst ` set fi"
proof (induction fs arbitrary: fi)
  case Nil
  show ?case by simp
next
  case (Cons f0 fs)
  show ?case
  proof (cases "has_slot fi e f0")
    case False
    then show ?thesis by (auto simp: has_slot_def split: option.splits)
  next
    case True
    then obtain fieldIndex s where fi: "map_of fi f0 = Some fieldIndex"
      and s: "map_of fieldIndex (prop_key (entity_get e f0)) = Some s"
      by (rule has_slot_cases)
    define fi' where "fi' = AList.update f0
      (AList.update (prop_key (entity_get e f0)) (set_delete (entity_id e) s) fieldIndex) fi"
    have step: "remove_loop (f0 # fs) e fi = remove_loop fs e fi'"
      unfolding fi'_def by (rule remove_loop_step [OF fi s])
    have k: "f0 \<in> fst ` set fi" using fi by (force dest: map_of_SomeD)
    have "fst ` set (snd (remove_loop fs e fi')) = fst ` set fi'"
      by (rule Cons.IH)
    also have "\<dots> = fst ` set fi"
      unfolding fi'_def by (rule keys_update [OF k])
    finally show ?thesis unfolding step .
  qed
qed

lemma remove_loop_wf:
  "list_all (has_slot fi e) fs \<Longrightarrow> wf_index fi \<Longrightarrow> wf_index (snd (remove_loop fs e fi))"
proof (induction fs arbitrary: fi)
  case Nil
  then show ?case by simp
next
  case (Cons f0 fs)
  from Cons.prems have "has_slot fi e f0" by simp
  then obtain fieldIndex s where fi: "map_of fi f0 = Some fieldIndex"
    and s: "map_of fieldIndex (prop_key (entity_get e f0)) = Some s"
    by (rule has_slot_cases)
  define x where "x = AList.update (prop_key (entity_get e f0)) (set_delete (entity_id e) s) fieldIndex"
  have step: "remove_loop (f0 # fs) e fi = remove_loop fs e (AList.update f0 x fi)"
    unfolding x_def by (rule remove_loop_step [OF fi s])
  have same: "has_slot (AList.update f0 x fi) e = has_slot fi e"
    unfolding x_def by (rule ext) (rule has_slot_update [OF fi s])
  have rest: "list_all (has_slot (AList.update f0 x fi) e) fs"
    using Cons.prems by (simp add: same)
  have "distinct (map fst fieldIndex)" by (rule wf_index_sub [OF Cons.prems(2) fi])
  then have "distinct (map fst x)" by (simp add: x_def distinct_update)
  then have "wf_index (AList.update f0 x fi)" by (rule wf_index_update [OF Cons.prems(2)])
  then show ?case unfolding step by (rule Cons.IH [OF rest])
qed

lemma set_sp_remove_subset: "fst ` set (sp_remove i t) \<subseteq> fst ` set t"
  by (induction t) auto

lemma set_sp_remove:
  "distinct (map fst t) \<Longrightarrow> strict_eq i i \<Longrightarrow> fst ` set (sp_remove i t) = fst ` set t - {i}"
proof (induction t)
  case Nil
  show ?case by simp
next
  case (Cons entry t)
  have eq: "strict_eq (fst entry) i \<longleftrightarrow> fst entry = i"
    using Cons.prems(2) by (auto simp: strict_eq_def)
  show ?case
  proof (cases "fst entry = i")
    case True
    then have "i \<notin> fst ` set t" using Cons.prems by auto
    then show ?thesis using True eq by auto
  next
    case False
    then show ?thesis using Cons eq by auto
  qed
qed

lemma distinct_sp_remove:
  "distinct (map fst t) \<Longrightarrow> distinct (map fst (sp_remove i t))"
proof (induction t)
  case Nil
  show ?case by simp
next
  case (Cons entry t)
  have "fst ` set (sp_remove i t) \<subseteq> fst ` set t"
    by (rule set_sp_remove_subset)
  then show ?case using Cons by auto
qed

lemma stored_ids_delete:
  assumes "store_inv g" and "byId_get g i = Some e0" and "entity_id e0 = i"
  shows "entity_id ` snd ` set (AList.delete (prop_key i) (byId g)) =
         entity_id ` set (all_db g) - {i}"
proof (intro equalityI subsetI)
  fix x assume "x \<in> entity_id ` snd ` set (AList.delete (prop_key i) (byId g))"
  then obtain k e1 where e1: "(k, e1) \<in> set (byId g)" "k \<noteq> prop_key i" "x = entity_id e1"
    by (auto simp: AList.delete_eq)
  have "prop_key (entity_id e1) = k"
    using assms(1) e1(1) by (auto simp: store_inv_def list_all_iff)
  then have "x \<noteq> i" using e1 by auto
  moreover have "x \<in> entity_id ` set (all_db g)" using e1 by (force simp: all_db_def)
  ultimately show "x \<in> entity_id ` set (all_db g) - {i}" by simp
next
  fix x assume x: "x \<in> entity_id ` set (all_db g) - {i}"
  then obtain k e1 where e1: "(k, e1) \<in> set (byId g)" "x = entity_id e1" "x \<noteq> i"
    by (auto simp: all_db_def)
  have k: "prop_key (entity_id e1) = k"
    using assms(1) e1(1) by (auto simp: store_inv_def list_all_iff)
  have "k \<noteq> prop_key i"
  proof
    assume "k = prop_key i"
    then have "map_of (byId g) (prop_key i) = Some e1"
      using assms(1) e1(1) by (simp add: store_inv_def)
    then have "e1 = e0" using assms(2) by (simp add: byId_get_Some)
    then show False using e1 assms(3) by simp
  qed
  then have "(k, e1) \<in> set (AList.delete (prop_key i) (byId g))"
    using e1(1) by (auto simp: AList.delete_eq)
  then show "x \<in> entity_id ` snd ` set (AList.delete (prop_key i) (byId g))"
    using e1(2) by force
qed

lemma filed_under_delete:
  assumes "store_inv g" and "byId_get g j = Some e0" and "entity_id e0 = j"
    and "byId g' = AList.delete (prop_key j) (byId g)"
    and "byId_is_array g' = byId_is_array g"
  shows "filed_under g' f k i \<longleftrightarrow> filed_under g f k i \<and> i \<noteq> j"
proof (cases "prop_key i = prop_key j")
  case True
  have gone: "byId_get g' i = None" using assms(4) True by (simp add: byId_get_def delete_conv')
  have "byId_get g i = Some e0" using assms(2) byId_get_key [OF True, of g] by simp
  then have "filed_under g f k i \<Longrightarrow> i = j" using assms(3) by (simp add: filed_under_def)
  then show ?thesis using gone by (auto simp: filed_under_def)
next
  case False
  have "byId_get g' i = byId_get g i"
    using assms(4,5) False by (simp add: byId_get_def is_length_def delete_conv')
  moreover have "i \<noteq> j" using False by auto
  ultimately show ?thesis by (simp add: filed_under_def)
qed

lemma db_inv_remove:
  assumes inv: "db_inv g" and stored: "stored_as g e" and id: "strict_eq (entity_id e) (entity_id e)"
  shows "fst (remove_db g e) = None" and "db_inv (snd (remove_db g e))"
proof -
  let ?key = "prop_key (entity_id e)"
  let ?L = "snd (remove_loop (fieldsToIndex g) e (fieldIndexes g))"
  define g' where "g' = snd (remove_db g e)"
  have c: "configured g" and w: "wf_index (fieldIndexes g)" and fi: "field_index_inv g"
    and sp: "spatial_inv g"
    using inv by (simp_all add: db_inv_def)
  have st: "store_inv g" using fi by (simp add: field_index_inv_def)
  from stored obtain e0 where e0: "byId_get g (entity_id e) = Some e0" "entity_id e0 = entity_id e"
    and same: "\<forall>f\<in>set (fieldsToIndex g). prop_key (entity_get e0 f) = prop_key (entity_get e f)"
    by (auto simp: stored_as_def list_all_iff split: option.splits)
  have e0_in: "e0 \<in> set (all_db g)" using e0(1) by (rule lookup_stored)
  have nl: "\<not> is_length g ?key" using e0(1) by (simp add: byId_get_Some)
  have slots: "list_all (has_slot (fieldIndexes g) e) (fieldsToIndex g)"
  proof -
    have "has_slot (fieldIndexes g) e f" if f: "f \<in> set (fieldsToIndex g)" for f
    proof -
      have "entity_id e0 \<in> set (index_set g f (prop_key (entity_get e0 f)))"
        by (rule field_index_inv_complete [OF fi f e0_in])
      then have "slot (fieldIndexes g) f (prop_key (entity_get e f)) \<noteq> []"
        using same f by (auto simp: index_set_def)
      then show ?thesis
        by (auto simp: has_slot_def slot_def emptySet_def split: option.splits)
    qed
    then show ?thesis by (simp add: list_all_iff)
  qed
  show ok: "fst (remove_db g e) = None"
    using slots nl by (simp add: remove_db_status)
  have g': "fieldsToIndex g' = fieldsToIndex g" "fieldIndexes g' = ?L"
    "byId g' = AList.delete ?key (byId g)"
    "spatialIndex g' = sp_remove (entity_id e) (spatialIndex g)"
    "byId_is_array g' = byId_is_array g"
    using ok remove_loop_status [of "fieldsToIndex g" e "fieldIndexes g"] slots
    by (simp_all add: g'_def remove_db_eq [OF nl])
  have c': "configured g'"
    using c by (simp add: configured_def g' remove_loop_keys_any)
  have w': "wf_index (fieldIndexes g')"
    using w by (simp add: g' remove_loop_wf [OF slots])
  have st': "store_inv g'"
  proof -
    have "distinct (map fst (byId g'))"
      using st by (simp add: g' store_inv_def distinct_delete)
    moreover have "set (byId g') \<subseteq> set (byId g)"
      by (auto simp: g' AList.delete_eq)
    ultimately show ?thesis
      using st by (auto simp: store_inv_def list_all_iff is_length_def g'(5))
  qed
  have semantic: "\<forall>f\<in>set (fieldsToIndex g).
            map_of (fieldIndexes g) f \<noteq> None \<and>
            (\<forall>k i. i \<in> set (index_set g f k) \<longleftrightarrow> filed_under g f k i)"
    using fi unfolding field_index_inv_iff [OF w] by simp
  have fi': "field_index_inv g'"
    unfolding field_index_inv_iff [OF w']
  proof (intro conjI ballI allI)
    show "store_inv g'" by (rule st')
    fix f assume "f \<in> set (fieldsToIndex g')"
    then have f: "f \<in> set (fieldsToIndex g)" by (simp add: g')
    show "map_of (fieldIndexes g') f \<noteq> None"
      using configured_sub_index [OF c', of f] f by (simp add: g')
    fix k i
    have under: "filed_under g f k (entity_id e) \<Longrightarrow> k = prop_key (entity_get e f)"
      using e0 same f by (simp add: filed_under_def)
    have "i \<in> set (index_set g' f k) \<longleftrightarrow>
          i \<in> set (index_set g f k) \<and> \<not> (i = entity_id e \<and> k = prop_key (entity_get e f))"
      using f by (auto simp: index_set_def g' remove_loop_slot [OF slots])
    also have "\<dots> \<longleftrightarrow> filed_under g f k i \<and> \<not> (i = entity_id e \<and> k = prop_key (entity_get e f))"
      using semantic f by simp
    also have "\<dots> \<longleftrightarrow> filed_under g f k i \<and> i \<noteq> entity_id e"
      using under by auto
    also have "\<dots> \<longleftrightarrow> filed_under g' f k i"
      using filed_under_delete [OF st e0 g'(3) g'(5)] by simp
    finally show "i \<in> set (index_set g' f k) \<longleftrightarrow> filed_under g' f k i" .
  qed
  have sp': "spatial_inv g'"
  proof -
    have d: "distinct (map fst (spatialIndex g))" using sp by (simp add: spatial_inv_def)
    have "fst ` set (spatialIndex g') = fst ` set (spatialIndex g) - {entity_id e}"
      by (simp add: g' set_sp_remove [OF d id])
    also have "\<dots> = entity_id ` set (all_db g) - {entity_id e}"
      using sp by (simp add: spatial_inv_def)
    also have "\<dots> = entity_id ` snd ` set (byId g')"
      using stored_ids_delete [OF st e0] by (simp add: g')
    finally have "set (map fst (spatialIndex g')) = set (map entity_id (all_db g'))"
      by (simp add: all_db_def image_image)
    then show ?thesis
      using distinct_sp_remove [OF d] by (simp add: spatial_inv_def g')
  qed
  show "db_inv (snd (remove_db g e))"
    using c' w' fi' sp' by (simp add: db_inv_def g'_def)
qed

subsection \<open>Every call keeps the invariant\<close>

lemma configured_exec:
  assumes "configured g"
  shows "configured (snd (exec g c))"
proof (cases c)
  case (Insert e)
  show ?thesis
  proof (cases "is_length g (prop_key (entity_id e))")
    case True
    then show ?thesis using assms Insert by (simp add: insert_db_length)
  next
    case False
    then show ?thesis
      using assms Insert
      by (simp add: configured_def insert_db_eq insert_loop_keys split: option.splits)
  qed
next
  case (Remove e)
  show ?thesis
  proof (cases "is_length g (prop_key (entity_id e))")
    case True
    then show ?thesis using assms Remove by (simp add: remove_db_length)
  next
    case False
    then show ?thesis
      using assms Remove
      by (simp add: configured_def remove_db_eq remove_loop_keys_any split: option.splits)
  qed
next
  case (Move e)
  then show ?thesis using assms by (simp add: configured_def move_eq)
next
  case (Search bounds query results)
  then show ?thesis
    using assms search_frame [of g bounds query results] by (simp add: configured_def)
next
  case All_db
  then show ?thesis using assms by simp
next
  case Nuke
  then show ?thesis
    by (simp add: configured_def nuke_def clearSpatialIndex_def keys_empty_indexes)
qed

lemma field_index_inv_cong:
  assumes "fieldsToIndex g' = fieldsToIndex g" and "fieldIndexes g' = fieldIndexes g"
    and "byId g' = byId g" and "byId_is_array g' = byId_is_array g"
  shows "field_index_inv g' = field_index_inv g"
proof -
  have l: "is_length g' = is_length g" using assms(4) by (auto simp: is_length_def fun_eq_iff)
  have b: "byId_get g' = byId_get g" using assms(3) l by (auto simp: byId_get_def fun_eq_iff)
  have f: "filed_under g' = filed_under g" using b by (auto simp: filed_under_def fun_eq_iff)
  have i: "index_set g' = index_set g" using assms(2) by (auto simp: index_set_def fun_eq_iff)
  have a: "all_db g' = all_db g" using assms(3) by (simp add: all_db_def)
  have s: "store_inv g' = store_inv g" using assms(3) l by (simp add: store_inv_def)
  show ?thesis
    unfolding field_index_inv_def f i a s assms(1) assms(2) ..
qed

lemma field_index_inv_spatialIndex:
  "field_index_inv (g\<lparr> spatialIndex := t \<rparr>) = field_index_inv g"
  by (rule field_index_inv_cong) simp_all

lemma db_inv_cong:
  assumes "fieldsToIndex g' = fieldsToIndex g" and "fieldIndexes g' = fieldIndexes g"
    and "byId g' = byId g" and "spatialIndex g' = spatialIndex g"
    and "byId_is_array g' = byId_is_array g"
  shows "db_inv g' = db_inv g"
proof -
  have a: "all_db g' = all_db g" using assms(3) by (simp add: all_db_def)
  have f: "field_index_inv g' = field_index_inv g"
    by (rule field_index_inv_cong [OF assms(1,2,3,5)])
  have c: "configured g' = configured g" using assms(1,2) by (simp add: configured_def)
  have s: "spatial_inv g' = spatial_inv g" using assms(4) a by (simp add: spatial_inv_def)
  show ?thesis
    unfolding db_inv_def f c s assms(2) ..
qed

lemma db_inv_move:
  assumes inv: "db_inv g" and present: "entity_id e \<in> set (map entity_id (all_db g))"
    and id: "strict_eq (entity_id e) (entity_id e)"
  shows "db_inv (snd (move g e))"
proof -
  define g' where "g' = snd (move g e)"
  have g': "fieldsToIndex g' = fieldsToIndex g" "fieldIndexes g' = fieldIndexes g"
    "byId g' = byId g"
    "spatialIndex g' = sp_remove (entity_id e) (spatialIndex g) @ [(entity_id e, handle e)]"
    "byId_is_array g' = byId_is_array g"
    by (simp_all add: g'_def move_eq sp_insert_def)
  have sp: "spatial_inv g" using inv by (simp add: db_inv_def)
  have d: "distinct (map fst (spatialIndex g))" using sp by (simp add: spatial_inv_def)
  have rest: "configured g' \<and> wf_index (fieldIndexes g') \<and> field_index_inv g'"
  proof -
    have "db_inv (g'\<lparr> spatialIndex := spatialIndex g \<rparr>) = db_inv g"
      by (rule db_inv_cong) (simp_all add: g')
    then have "db_inv (g'\<lparr> spatialIndex := spatialIndex g \<rparr>)" using inv by simp
    then have c: "configured (g'\<lparr> spatialIndex := spatialIndex g \<rparr>)"
      and w: "wf_index (fieldIndexes g')"
      and f: "field_index_inv (g'\<lparr> spatialIndex := spatialIndex g \<rparr>)"
      by (simp_all add: db_inv_def)
    have "configured g'" using c by (simp add: configured_def)
    moreover have "field_index_inv g'"
      using f by (simp add: field_index_inv_spatialIndex)
    ultimately show ?thesis using w by simp
  qed
  have "spatial_inv g'"
    using sp present distinct_sp_remove [OF d] set_sp_remove [OF d id]
    by (auto simp: spatial_inv_def g' all_db_def)
  then show ?thesis using rest by (simp add: db_inv_def g'_def)
qed

lemma db_inv_search: "db_inv (fst (snd (search g bounds query results))) = db_inv g"
  by (rule db_inv_cong) (simp_all add: search_frame)

lemma db_inv_nuke: "db_inv (snd (nuke g))"
  by (rule db_inv_empty) (simp_all add: nuke_def clearSpatialIndex_def sp_clear_def)

text \<open>The invariant holds after every call that keeps the caller's side of the contract.\<close>

lemma db_inv_exec:
  assumes "db_inv g" and "contract g c"
  shows "db_inv (snd (exec g c))"
proof (cases c)
  case (Insert e)
  then show ?thesis using assms by (simp add: db_inv_insert)
next
  case (Remove e)
  then show ?thesis using assms by (simp add: db_inv_remove(2))
next
  case (Move e)
  then show ?thesis using assms by (simp add: db_inv_move)
next
  case (Search bounds query results)
  then show ?thesis using assms by (simp add: db_inv_search)
next
  case All_db
  then show ?thesis using assms by simp
next
  case Nuke
  then show ?thesis by (simp add: db_inv_nuke)
qed

text \<open>
  So the invariant holds in every state that is reached from a new engine by calls that
  keep the contract, and with it the two assumptions under which the claims speak of
  entities.
\<close>

lemma proper_db_inv: "proper g \<Longrightarrow> db_inv g"
  by (induction rule: proper.induct) (simp_all add: db_inv_new_GameDB db_inv_exec)

lemma proper_ids_resolve: "proper g \<Longrightarrow> ids_resolve g"
  by (simp add: proper_db_inv db_inv_ids_resolve)

lemma proper_field_index_inv: "proper g \<Longrightarrow> field_index_inv g"
  using proper_db_inv [of g] by (simp add: db_inv_def)

lemma proper_configured: "proper g \<Longrightarrow> configured g"
  using proper_db_inv [of g] by (simp add: db_inv_def)

text \<open>The databases of the examples are such states.\<close>

lemma proper_insert:
  "proper g \<Longrightarrow> contract g (Insert e) \<Longrightarrow> proper (snd (insert_db g e))"
  using proper.step [of g "Insert e"] by simp

lemma proper_nuke: "proper g \<Longrightarrow> proper (snd (nuke g))"
  using proper.step [of g Nuke] by simp

lemma proper_test_db: "proper test_db"
proof -
  define g0 where "g0 = snd (nuke (new_GameDB [''type'', ''color'']))"
  define g1 where "g1 = snd (insert_db g0 dog)"
  define g2 where "g2 = snd (insert_db g1 cat)"
  define g3 where "g3 = snd (insert_db g2 tree)"
  have c1: "contract g0 (Insert dog)" unfolding g0_def by code_simp
  have c2: "contract g1 (Insert cat)" unfolding g1_def g0_def by code_simp
  have c3: "contract g2 (Insert tree)" unfolding g2_def g1_def g0_def by code_simp
  have c4: "contract g3 (Insert flower)" unfolding g3_def g2_def g1_def g0_def by code_simp
  have "proper (new_GameDB [''type'', ''color''])" by (rule proper.start)
  then have "proper g0" unfolding g0_def by (rule proper_nuke)
  then have "proper g1" unfolding g1_def using c1 by (rule proper_insert)
  then have "proper g2" unfolding g2_def using c2 by (rule proper_insert)
  then have "proper g3" unfolding g3_def using c3 by (rule proper_insert)
  then have "proper (snd (insert_db g3 flower))" using c4 by (rule proper_insert)
  then show ?thesis by (simp add: test_db_def g3_def g2_def g1_def g0_def)
qed

lemma proper_hp_db: "proper hp_db"
proof -
  have "contract (new_GameDB [''hp'']) (Insert enemy)" by code_simp
  with proper.start [of "[''hp'']"] show ?thesis
    unfolding hp_db_def by (rule proper_insert)
qed

text \<open>
  The database after the inserts of the ids 5 and "5" is not reached in this way: the
  second insert is of an id that is present, and afterwards not every id resolves to the
  entity with this id.
\<close>

lemma fives_db_contract:
  "contract (new_GameDB [''type'', ''color'']) (Insert five_number) \<and>
   \<not> contract (snd (insert_db (new_GameDB [''type'', ''color'']) five_number)) (Insert five_text) \<and>
   \<not> ids_resolve fives_db"
  by code_simp

text \<open>The buffer the caller passes is cleared first: its content does not matter.\<close>

lemma search_buffer: "search g bounds query results = search g bounds query []"
  by (simp add: search_def clearBuffer_def)

section \<open>The claims\<close>

subsection \<open>Search is read-only on the indexes\<close>

text \<open>
  C10: a search, with any combination of bounds and query and whether it returns or
  throws, leaves the identity store \<open>byId\<close>, every sub-index of \<open>fieldIndexes\<close> and the
  spatial index as they were; the engine afterwards differs from the engine before in its
  scratch pool at most.
\<close>

theorem search_read_only:
  "byId (fst (snd (search g bounds query results))) = byId g \<and>
   fieldIndexes (fst (snd (search g bounds query results))) = fieldIndexes g \<and>
   spatialIndex (fst (snd (search g bounds query results))) = spatialIndex g \<and>
   fst (snd (search g bounds query results)) =
     g\<lparr> pool := pool (fst (snd (search g bounds query results))) \<rparr>"
  using search_frame [of g bounds query results]
    same_up_to_pool [of "fst (snd (search g bounds query results))" g]
  by simp

text \<open>The same at the database of the tests, for a search that fills the pool.\<close>

theorem search_read_only_witness:
  "byId (fst (snd (search test_db (Some upperLeft) (Some [(''type'', JStr ''animal'')]) [])))
     = byId test_db \<and>
   pool (fst (snd (search test_db (Some upperLeft) (Some [(''type'', JStr ''animal'')]) [])))
     \<noteq> pool test_db"
proof -
  have "pool (fst (snd (search test_db (Some upperLeft) (Some [(''type'', JStr ''animal'')]) [])))
          \<noteq> pool test_db"
    by code_simp
  then show ?thesis
    using search_read_only [of test_db "Some upperLeft" "Some [(''type'', JStr ''animal'')]" "[]"]
    by simp
qed

subsection \<open>Bounds with an empty query\<close>

text \<open>
  C3, as the code has it: a search with bounds and a query without criteria returns
  without error and leaves the buffer empty, whatever the spatial index holds. Both
  \<open>bounds\<close> and \<open>query\<close> are given, so the branch for the two together runs; it
  intersects only when there is at least one field result, and otherwise the empty set of
  ids is resolved.
\<close>

theorem search_bounds_empty_query:
  "fst (search g (Some b) (Some []) results) = None \<and>
   snd (snd (search g (Some b) (Some []) results)) = []"
  by (simp add: search_def Let_def clearBuffer_def clearPool_def spatialSearch_def
      intersect_both_def resolve_def useResults_def)

theorem search_bounds_empty_query_witness:
  "snd (snd (search test_db (Some upperLeft) (Some []) [Some cat])) = []"
  using search_bounds_empty_query [of test_db upperLeft "[Some cat]"] by simp

text \<open>
  C3 as stated fails: in the database of the tests the bounds alone yield the dog, the
  bounds with an empty query yield nothing.
\<close>

theorem search_bounds_empty_query_counterexample:
  "search_results test_db (Some upperLeft) None = [Some dog] \<and>
   search_results test_db (Some upperLeft) (Some []) = [] \<and>
   set (search_results test_db (Some upperLeft) (Some [])) \<noteq>
   set (search_results test_db (Some upperLeft) None)"
  by code_simp

subsection \<open>Move and the field index\<close>

text \<open>
  C9: \<^verbatim>\<open>move(e)\<close> returns without error and leaves the identity store and every
  sub-index of the field index unchanged, in every engine state and for every entity;
  so every search by fields alone ends the same way (returns or throws) and yields the
  same entities, in the same order, after the move as before.
\<close>

theorem move_keeps_field_matching:
  "fst (move g e) = None \<and>
   byId (snd (move g e)) = byId g \<and>
   fieldIndexes (snd (move g e)) = fieldIndexes g \<and>
   fst (search (snd (move g e)) None (Some q) results) = fst (search g None (Some q) results) \<and>
   snd (snd (search (snd (move g e)) None (Some q) results)) =
     snd (snd (search g None (Some q) results))"
proof -
  have "fst (move g e) = None" by (simp add: move_def)
  then show ?thesis by (simp add: move_eq search_query_spatialIndex)
qed

text \<open>In the database of the tests the move changes the spatial index and nothing else.\<close>

theorem move_keeps_field_matching_witness:
  "spatialIndex (snd (move test_db moved_dog)) \<noteq> spatialIndex test_db \<and>
   byId (snd (move test_db moved_dog)) = byId test_db \<and>
   search_results (snd (move test_db moved_dog)) None (Some [(''type'', JStr ''animal'')]) =
     [Some dog, Some cat]"
proof -
  have a: "spatialIndex (snd (move test_db moved_dog)) \<noteq> spatialIndex test_db"
    by code_simp
  have b: "search_results test_db None (Some [(''type'', JStr ''animal'')]) = [Some dog, Some cat]"
    by code_simp
  show ?thesis
    using a b move_keeps_field_matching [of test_db moved_dog "[(''type'', JStr ''animal'')]" "[]"]
    by (simp add: search_results_def)
qed

subsection \<open>Bounds and query together\<close>




subsection \<open>Queries over several fields\<close>

text \<open>
  C2, as the code has it: for every engine state and every query with at least one
  criterion, the ids the search resolves are the intersection of the ids that the
  searches for the single criteria resolve; a query with the same criteria in another
  order, for which the loop may start from another smallest set, resolves the same ids
  and yields the same entities. When every id held by an index resolves to the stored
  entity with this id (\<open>proper_ids_resolve\<close>; the code does not enforce it), the
  entities left in the buffer are the intersection of the entities of the
  single-criterion searches. The loop yields the intersection of the ids from whichever
  set it starts (\<open>pivot_loop\<close>).
\<close>

theorem search_multi_field:
  assumes "q \<noteq> []"
  shows "set (search_ids g None (Some q)) = (\<Inter>c\<in>set q. set (search_ids g None (Some [c]))) \<and>
         (\<forall>q'. set q' = set q \<longrightarrow>
            set (search_ids g None (Some q')) = set (search_ids g None (Some q)) \<and>
            set (search_results g None (Some q')) = set (search_results g None (Some q))) \<and>
         (ids_resolve g \<longrightarrow>
            set (search_results g None (Some q)) =
              (\<Inter>c\<in>set q. set (search_results g None (Some [c]))))"
proof -
  have ids: "set (search_ids g None (Some q)) = (\<Inter>c\<in>set q. set (search_ids g None (Some [c])))"
    by (rule search_ids_multi [OF assms])
  have order: "\<forall>q'. set q' = set q \<longrightarrow>
            set (search_ids g None (Some q')) = set (search_ids g None (Some q)) \<and>
            set (search_results g None (Some q')) = set (search_results g None (Some q))"
  proof (intro allI impI)
    fix q' assume "set q' = set q"
    then have e: "set (search_ids g None (Some q')) = set (search_ids g None (Some q))"
      by (rule search_ids_order)
    have "set (search_results g None (Some q')) = byId_get g ` set (search_ids g None (Some q'))"
      by (simp add: search_results_ids)
    also have "\<dots> = set (search_results g None (Some q))"
      by (simp add: search_results_ids e)
    finally show "set (search_ids g None (Some q')) = set (search_ids g None (Some q)) \<and>
            set (search_results g None (Some q')) = set (search_results g None (Some q))"
      using e by simp
  qed
  have ents: "set (search_results g None (Some q)) =
              (\<Inter>c\<in>set q. set (search_results g None (Some [c])))"
    if r: "ids_resolve g"
  proof -
    from assms obtain c0 where c0: "c0 \<in> set q" by (cases q) auto
    have "byId_get g ` (\<Inter>c\<in>set q. set (search_ids g None (Some [c]))) =
          (\<Inter>c\<in>set q. byId_get g ` set (search_ids g None (Some [c])))"
    proof (rule image_INT [OF ids_resolve_inj [OF r] _ c0])
      show "\<forall>c\<in>set q. set (search_ids g None (Some [c])) \<subseteq> set (indexed_ids g)"
        by (simp add: search_ids_query_indexed)
    qed
    then show ?thesis by (simp add: search_results_ids ids)
  qed
  show ?thesis using ids order ents by blast
qed

text \<open>In the database of the tests: the black animals, asked for in both orders.\<close>

theorem search_multi_field_witness:
  "[(''type'', JStr ''animal''), (''color'', JStr ''black'')] \<noteq> [] \<and>
   ids_resolve test_db \<and>
   set (search_results test_db None (Some [(''type'', JStr ''animal''), (''color'', JStr ''black'')])) =
     (\<Inter>c\<in>set [(''type'', JStr ''animal''), (''color'', JStr ''black'')].
        set (search_results test_db None (Some [c]))) \<and>
   set (search_results test_db None (Some [(''color'', JStr ''black''), (''type'', JStr ''animal'')])) =
     set (search_results test_db None (Some [(''type'', JStr ''animal''), (''color'', JStr ''black'')])) \<and>
   search_results test_db None (Some [(''type'', JStr ''animal''), (''color'', JStr ''black'')]) =
     [Some dog]"
proof -
  have n: "[(''type'', JStr ''animal''), (''color'', JStr ''black'')] \<noteq> []" by simp
  have r: "ids_resolve test_db" by code_simp
  have v: "search_results test_db None (Some [(''type'', JStr ''animal''), (''color'', JStr ''black'')]) =
     [Some dog]"
    by code_simp
  have s: "set [(''color'', JStr ''black''), (''type'', JStr ''animal'')] =
           set [(''type'', JStr ''animal''), (''color'', JStr ''black'')]"
    by auto
  show ?thesis
    using n r v s search_multi_field [OF n, of test_db]
    by blast
qed

text \<open>
  C2 as stated fails: after the inserts of the ids 5 and "5", the query for the animals
  and the query for what is white each yield the second entity, through the one id and
  through the other, and the query for white animals yields nothing.
\<close>

theorem search_multi_field_counterexample:
  "search_results fives_db None (Some [(''type'', JStr ''animal'')]) = [Some five_text] \<and>
   search_results fives_db None (Some [(''color'', JStr ''white'')]) = [Some five_text] \<and>
   search_results fives_db None (Some [(''type'', JStr ''animal''), (''color'', JStr ''white'')]) = [] \<and>
   set (search_results fives_db None (Some [(''type'', JStr ''animal''), (''color'', JStr ''white'')])) \<noteq>
     set (search_results fives_db None (Some [(''type'', JStr ''animal'')])) \<inter>
     set (search_results fives_db None (Some [(''color'', JStr ''white'')]))"
  by code_simp

subsection \<open>Queries on one field\<close>

text \<open>
  C4, as the code has it: in an engine state that satisfies the invariant of the identity
  store and the field index (\<open>proper_field_index_inv\<close>), the search for value \<open>v\<close> of a
  configured field \<open>f\<close>
  returns without error and yields exactly the stored entities whose value for \<open>f\<close> has
  the same property key as \<open>v\<close>, for every value \<open>v\<close> (\<^verbatim>\<open>undefined\<close>, \<^verbatim>\<open>null\<close>, a
  boolean, a number, a big integer, a string or an object). The sub-index is a plain
  object, so values are compared by the strings they convert to: the number 5 and the
  text "5" are the same key, and so are the number 1e21 and the text "1e+21". (The key
  of \<open>v\<close> is taken to be plain.)
\<close>

theorem search_single_field:
  assumes "field_index_inv g" and "f \<in> set (fieldsToIndex g)" and "plain_key (prop_key v)"
  shows "fst (search g None (Some [(f, v)]) results) = None \<and>
         set (snd (snd (search g None (Some [(f, v)]) results))) =
           Some ` {e \<in> set (all_db g). prop_key (entity_get e f) = prop_key v}"
proof -
  have known: "known_fields g [(f, v)]"
    using field_index_inv_sub_index [OF assms(1,2)] by (simp add: known_fields_def)
  have si: "store_inv g" using assms(1) by (simp add: field_index_inv_def)
  let ?ids = "useResults (fst (snd (search g None (Some [(f, v)]) results)))"
  have ids: "set ?ids = set (index_set g f (prop_key v))"
    using search_query_only(2) [OF known, of results] by (simp add: field_lookup_def)
  have res: "set (snd (snd (search g None (Some [(f, v)]) results))) =
             byId_get g ` set (index_set g f (prop_key v))"
    using search_query_only(3) [OF known, of results] ids by simp
  have "byId_get g ` set (index_set g f (prop_key v)) =
        Some ` {e \<in> set (all_db g). prop_key (entity_get e f) = prop_key v}"
  proof (intro equalityI subsetI)
    fix x assume "x \<in> byId_get g ` set (index_set g f (prop_key v))"
    then obtain i where i: "i \<in> set (index_set g f (prop_key v))" "x = byId_get g i" by blast
    from field_index_inv_sound [OF assms(1,2) i(1)]
    obtain e where e: "byId_get g i = Some e" "prop_key (entity_get e f) = prop_key v"
      by (auto simp: filed_under_def split: option.splits)
    have "e \<in> set (all_db g)" using e(1) by (rule lookup_stored)
    then show "x \<in> Some ` {e \<in> set (all_db g). prop_key (entity_get e f) = prop_key v}"
      using e i(2) by simp
  next
    fix x assume "x \<in> Some ` {e \<in> set (all_db g). prop_key (entity_get e f) = prop_key v}"
    then obtain e where e: "x = Some e" "e \<in> set (all_db g)"
      "prop_key (entity_get e f) = prop_key v" by blast
    have "entity_id e \<in> set (index_set g f (prop_key v))"
      using field_index_inv_complete [OF assms(1,2) e(2)] e(3) by simp
    moreover have "byId_get g (entity_id e) = Some e"
      by (rule stored_entity_lookup [OF si e(2)])
    ultimately show "x \<in> byId_get g ` set (index_set g f (prop_key v))"
      using e(1) by (metis image_eqI)
  qed
  then show ?thesis
    using res search_query_only(1) [OF known, of results] by simp
qed

text \<open>
  The database indexed by \<^verbatim>\<open>hp\<close>, reached by one insert into a new engine
  (\<open>proper_hp_db\<close>), satisfies the assumptions.
\<close>

theorem search_single_field_witness:
  "field_index_inv hp_db \<and> ''hp'' \<in> set (fieldsToIndex hp_db) \<and>
   plain_key (prop_key (JStr ''5'')) \<and>
   fst (search hp_db None (Some [(''hp'', JStr ''5'')]) []) = None \<and>
   set (snd (snd (search hp_db None (Some [(''hp'', JStr ''5'')]) []))) =
     Some ` {e \<in> set (all_db hp_db). prop_key (entity_get e ''hp'') = prop_key (JStr ''5'')}"
proof -
  have i: "field_index_inv hp_db" by code_simp
  have f: "''hp'' \<in> set (fieldsToIndex hp_db)" by code_simp
  have p: "plain_key (prop_key (JStr ''5''))" by code_simp
  show ?thesis
    using i f p search_single_field [OF i f p, of "[]"] by simp
qed

text \<open>
  C4 as stated fails: the enemy's \<^verbatim>\<open>hp\<close> is the number 5, and the search for the text "5"
  yields the enemy.
\<close>

theorem search_single_field_counterexample:
  "entity_get enemy ''hp'' = JNum ''5'' \<and>
   JNum ''5'' \<noteq> JStr ''5'' \<and>
   search_results hp_db None (Some [(''hp'', JStr ''5'')]) = [Some enemy]"
  by code_simp

subsection \<open>Insert of an id that is present\<close>

text \<open>
  C5, as the code has it: in a configured engine, the insert of an entity whose id is
  already present (and whose keys are plain) returns without error; afterwards the
  identity store holds the new entity under this id, and the spatial index has one more
  entry for it. The code has no check of the id.
\<close>

theorem insert_existing_id:
  assumes "configured g" and "plain_entity g e" and "byId_get g (entity_id e) = Some old"
  shows "fst (insert_db g e) = None \<and>
         byId_get (snd (insert_db g e)) (entity_id e) = Some e \<and>
         spatialIndex (snd (insert_db g e)) = spatialIndex g @ [(entity_id e, handle e)]"
proof -
  have nl: "\<not> is_length g (prop_key (entity_id e))"
    using assms(3) by (simp add: byId_get_Some)
  have "is_length (snd (insert_db g e)) (prop_key (entity_id e)) =
        is_length g (prop_key (entity_id e))"
    by (simp add: is_length_def insert_db_array)
  then have "byId_get (snd (insert_db g e)) (entity_id e) = Some e"
    using nl by (simp add: byId_get_def insert_db_byId [OF nl] update_conv')
  then show ?thesis
    using insert_db_ok [OF assms(1) nl] nl by (simp add: insert_db_spatialIndex)
qed

text \<open>In the database of the tests, an entity with the id of the dog takes its place.\<close>

theorem insert_existing_id_witness:
  "configured test_db \<and> plain_entity test_db impostor \<and>
   byId_get test_db (entity_id impostor) = Some dog \<and>
   fst (insert_db test_db impostor) = None \<and>
   byId_get (snd (insert_db test_db impostor)) (entity_id impostor) = Some impostor"
proof -
  have c: "configured test_db" by code_simp
  have p: "plain_entity test_db impostor" by code_simp
  have d: "byId_get test_db (entity_id impostor) = Some dog" by code_simp
  show ?thesis
    using c p d insert_existing_id [OF c p d] by simp
qed

text \<open>C5 as stated fails: this insert returns normally, it does not fail.\<close>

theorem insert_existing_id_counterexample:
  "byId_get test_db (entity_id impostor) = Some dog \<and>
   fst (insert_db test_db impostor) = None \<and>
   fst (insert_db test_db impostor) \<noteq> Some DuplicateIdError"
  by code_simp

subsection \<open>Remove and move of an id that is absent\<close>




subsection \<open>Queries on a field that is not indexed\<close>




subsection \<open>Calls that fail\<close>

text \<open>
  C8, as the code has it: in a configured engine, a call of insert (of an entity with
  plain keys), move, search, all or nuke that fails leaves the identity store, the field
  index and the spatial index as they were. Such a call is a search, or it is the insert
  of an entity with the id \<^verbatim>\<open>length\<close> into an identity store that is an array, as it
  is after \<^verbatim>\<open>nuke\<close>, which throws a \<open>RangeError\<close> at its first assignment. A
  \<^verbatim>\<open>remove\<close> is left out: it deletes from the identity store and from the sets of the
  field index before it reads the set that may be missing.
\<close>

theorem failing_call_leaves_indexes:
  assumes "configured g" and "covered_call g c" and "fst (exec g c) = Some err"
  shows "((\<exists>bounds query results. c = Search bounds query results) \<or>
          (\<exists>e. c = Insert e \<and> is_length g (prop_key (entity_id e)) \<and> err = RangeError)) \<and>
         byId (snd (exec g c)) = byId g \<and>
         fieldIndexes (snd (exec g c)) = fieldIndexes g \<and>
         spatialIndex (snd (exec g c)) = spatialIndex g"
proof (cases c)
  case (Insert e)
  have "is_length g (prop_key (entity_id e))"
    using assms(1,3) Insert by (simp add: insert_db_status split: if_splits)
  then show ?thesis
    using assms(1,3) Insert by (simp add: insert_db_status insert_db_length)
next
  case (Remove e)
  then show ?thesis using assms by simp
next
  case (Move e)
  then show ?thesis using assms by (simp add: move_def)
next
  case (Search bounds query results)
  then show ?thesis using search_frame [of g bounds query results] by simp
next
  case All_db
  then show ?thesis using assms by simp
next
  case Nuke
  then show ?thesis using assms by (simp add: nuke_def)
qed

text \<open>
  The database of the tests was set up after a \<^verbatim>\<open>nuke\<close>: the insert of an entity with
  the id \<^verbatim>\<open>length\<close> throws, and so does a search on a field that is not indexed.
\<close>

theorem failing_call_leaves_indexes_witness:
  "configured test_db \<and>
   covered_call test_db (Insert length_entity) \<and>
   fst (exec test_db (Insert length_entity)) = Some RangeError \<and>
   byId (snd (exec test_db (Insert length_entity))) = byId test_db \<and>
   fieldIndexes (snd (exec test_db (Insert length_entity))) = fieldIndexes test_db \<and>
   spatialIndex (snd (exec test_db (Insert length_entity))) = spatialIndex test_db \<and>
   covered_call test_db (Search (Some upperLeft) (Some [(''size'', JNum ''5'')]) [Some cat]) \<and>
   fst (exec test_db (Search (Some upperLeft) (Some [(''size'', JNum ''5'')]) [Some cat])) =
     Some TypeError \<and>
   byId (snd (exec test_db (Search (Some upperLeft) (Some [(''size'', JNum ''5'')]) [Some cat]))) =
     byId test_db"
proof -
  have c: "configured test_db" by code_simp
  have n: "covered_call test_db (Insert length_entity)" by code_simp
  have f: "fst (exec test_db (Insert length_entity)) = Some RangeError" by code_simp
  have n': "covered_call test_db (Search (Some upperLeft) (Some [(''size'', JNum ''5'')]) [Some cat])"
    by simp
  have f': "fst (exec test_db (Search (Some upperLeft) (Some [(''size'', JNum ''5'')]) [Some cat])) =
            Some TypeError"
    by code_simp
  show ?thesis
    using c n f n' f' failing_call_leaves_indexes [OF c n f] failing_call_leaves_indexes [OF c n' f']
    by simp
qed

text \<open>
  C8 as stated fails: the remove of the dog after its colour has changed throws, and
  the dog is gone from the identity store and from the set of the animals.
\<close>

theorem failing_call_leaves_indexes_counterexample:
  "byId_get test_db (entity_id purple_dog) = Some dog \<and>
   fst (exec test_db (Remove purple_dog)) = Some TypeError \<and>
   byId (snd (exec test_db (Remove purple_dog))) \<noteq> byId test_db \<and>
   fieldIndexes (snd (exec test_db (Remove purple_dog))) \<noteq> fieldIndexes test_db"
  by code_simp

end
